theory Spec2Isabelle
  imports Complex_Main "HOL-Library.Multiset" "HOL-Library.AList"
begin

unbundle bit_operations_syntax

section \<open>Content negotiation: internal/negotiator/mediatype.go\<close>

text \<open>
  A shallow embedding of the Go package \<^verbatim>\<open>negotiator\<close>. Go strings are byte sequences and
  are modelled as \<^typ>\<open>string\<close> (a list of 8-bit characters). A nil pointer result is
  \<^term>\<open>None\<close>; a run-time panic is a value of type \<open>error\<close>; a loop that may run forever
  returns an \<open>option\<close>, \<^term>\<open>None\<close> meaning that it does not return.
\<close>

subsection \<open>float64 values and their comparisons\<close>

text \<open>
  The field \<^verbatim>\<open>Q\<close> is a float64. The code only compares qualities (\<^verbatim>\<open>>\<close>, \<^verbatim>\<open>!=\<close>), so a
  float is modelled by its numeric value: not-a-number, the two infinities, or a finite
  value (a rational; both zeros of IEEE 754 compare equal and are the one value \<open>Fin 0\<close>).
\<close>

datatype f64 = NaN | NegInf | Fin rat | PosInf

fun f64_gt :: "f64 \<Rightarrow> f64 \<Rightarrow> bool" where
  "f64_gt NaN b = False"
| "f64_gt a NaN = False"
| "f64_gt NegInf b = False"
| "f64_gt (Fin x) NegInf = True"
| "f64_gt (Fin x) (Fin y) = (y < x)"
| "f64_gt (Fin x) PosInf = False"
| "f64_gt PosInf PosInf = False"
| "f64_gt PosInf b = True"

definition f64_ne :: "f64 \<Rightarrow> f64 \<Rightarrow> bool" where
  "f64_ne a b = (a = NaN \<or> b = NaN \<or> a \<noteq> b)"

definition f64_le :: "f64 \<Rightarrow> f64 \<Rightarrow> bool" where
  "f64_le a b = (a \<noteq> NaN \<and> b \<noteq> NaN \<and> \<not> f64_gt a b)"

subsection \<open>The functions of Go's \<^verbatim>\<open>strings\<close> package that the code calls\<close>

text \<open>
  \<^verbatim>\<open>strings.TrimSpace\<close> removes leading and trailing Unicode white space from a UTF-8
  string. The white-space code points are U+0009..U+000D, U+0020, U+0085, U+00A0, U+1680,
  U+2000..U+200A, U+2028, U+2029, U+202F, U+205F and U+3000; \<open>spaceWidthFront\<close> is the width
  in bytes of such a code point encoded at the front of the string (0 if there is none),
  \<open>spaceWidthBack\<close> the same at the back.
\<close>

definition asciiSpace :: "char \<Rightarrow> bool" where
  "asciiSpace c = (c = CHR 0x09 \<or> c = CHR 0x0A \<or> c = CHR 0x0B \<or> c = CHR 0x0C \<or> c = CHR 0x0D \<or> c = CHR 0x20)"

definition space2 :: "string list" where
  "space2 = [[CHR 0xC2, CHR 0x85], [CHR 0xC2, CHR 0xA0]]"

definition space3 :: "string list" where
  "space3 =
    [[CHR 0xE1, CHR 0x9A, CHR 0x80],
     [CHR 0xE2, CHR 0x80, CHR 0x80], [CHR 0xE2, CHR 0x80, CHR 0x81], [CHR 0xE2, CHR 0x80, CHR 0x82],
     [CHR 0xE2, CHR 0x80, CHR 0x83], [CHR 0xE2, CHR 0x80, CHR 0x84], [CHR 0xE2, CHR 0x80, CHR 0x85],
     [CHR 0xE2, CHR 0x80, CHR 0x86], [CHR 0xE2, CHR 0x80, CHR 0x87], [CHR 0xE2, CHR 0x80, CHR 0x88],
     [CHR 0xE2, CHR 0x80, CHR 0x89], [CHR 0xE2, CHR 0x80, CHR 0x8A],
     [CHR 0xE2, CHR 0x80, CHR 0xA8], [CHR 0xE2, CHR 0x80, CHR 0xA9], [CHR 0xE2, CHR 0x80, CHR 0xAF],
     [CHR 0xE2, CHR 0x81, CHR 0x9F], [CHR 0xE3, CHR 0x80, CHR 0x80]]"

definition spaceWidthFront :: "string \<Rightarrow> nat" where
  "spaceWidthFront s =
     (case s of [] \<Rightarrow> 0
      | c # cs \<Rightarrow>
          if asciiSpace c then 1
          else if length s \<ge> 2 \<and> take 2 s \<in> set space2 then 2
          else if length s \<ge> 3 \<and> take 3 s \<in> set space3 then 3
          else 0)"

definition spaceWidthBack :: "string \<Rightarrow> nat" where
  "spaceWidthBack s =
     (case rev s of [] \<Rightarrow> 0
      | c # cs \<Rightarrow>
          if asciiSpace c then 1
          else if length s \<ge> 2 \<and> drop (length s - 2) s \<in> set space2 then 2
          else if length s \<ge> 3 \<and> drop (length s - 3) s \<in> set space3 then 3
          else 0)"

lemma spaceWidthFront_le: "spaceWidthFront s \<le> length s"
  by (cases s) (simp_all add: spaceWidthFront_def)

lemma spaceWidthBack_le: "spaceWidthBack s \<le> length s"
  by (cases "rev s") (auto simp: spaceWidthBack_def dest: arg_cong [where f = length])

function TrimLeft :: "string \<Rightarrow> string" where
  "TrimLeft s = (if 0 < spaceWidthFront s then TrimLeft (drop (spaceWidthFront s) s) else s)"
  by pat_completeness auto
termination
proof (relation "measure length")
  fix s :: string
  assume "0 < spaceWidthFront s"
  moreover have "spaceWidthFront s \<le> length s" by (rule spaceWidthFront_le)
  ultimately show "(drop (spaceWidthFront s) s, s) \<in> measure length" by simp
qed simp

function TrimRight :: "string \<Rightarrow> string" where
  "TrimRight s = (if 0 < spaceWidthBack s then TrimRight (take (length s - spaceWidthBack s) s) else s)"
  by pat_completeness auto
termination
proof (relation "measure length")
  fix s :: string
  assume "0 < spaceWidthBack s"
  moreover have "spaceWidthBack s \<le> length s" by (rule spaceWidthBack_le)
  ultimately show "(take (length s - spaceWidthBack s) s, s) \<in> measure length" by simp
qed simp

declare TrimLeft.simps [simp del] TrimRight.simps [simp del]

definition TrimSpace :: "string \<Rightarrow> string" where
  "TrimSpace s = TrimRight (TrimLeft s)"

lemma TrimLeft_front: "spaceWidthFront (TrimLeft s) = 0"
  by (induction s rule: TrimLeft.induct) (subst TrimLeft.simps, auto)

lemma TrimRight_back: "spaceWidthBack (TrimRight s) = 0"
  by (induction s rule: TrimRight.induct) (subst TrimRight.simps, auto)

lemma TrimRight_take: "\<exists>n. TrimRight s = take n s"
proof (induction s rule: TrimRight.induct)
  case (1 s)
  show ?case
  proof (cases "0 < spaceWidthBack s")
    case True
    with 1 obtain n where "TrimRight (take (length s - spaceWidthBack s) s) = take n (take (length s - spaceWidthBack s) s)"
      by blast
    then show ?thesis using True by (subst TrimRight.simps) (auto intro: exI)
  next
    case False
    then show ?thesis by (subst TrimRight.simps) (auto intro: exI [of _ "length s"])
  qed
qed

lemma TrimLeft_length: "length (TrimLeft s) \<le> length s"
  by (induction s rule: TrimLeft.induct) (subst TrimLeft.simps, auto)

lemma TrimRight_length: "length (TrimRight s) \<le> length s"
  by (induction s rule: TrimRight.induct) (subst TrimRight.simps, auto)

lemma TrimSpace_length: "length (TrimSpace s) \<le> length s"
  unfolding TrimSpace_def using TrimLeft_length [of s] TrimRight_length [of "TrimLeft s"] by linarith

lemma spaceWidthFront_take: "spaceWidthFront s = 0 \<Longrightarrow> spaceWidthFront (take n s) = 0"
proof (cases "take n s")
  case Nil
  show ?thesis unfolding spaceWidthFront_def Nil by simp
next
  case (Cons c cs)
  assume z: "spaceWidthFront s = 0"
  from Cons obtain s' where s: "s = c # s'" by (cases s; cases n) auto
  have t2: "2 \<le> length (take n s) \<Longrightarrow> take 2 (take n s) = take 2 s" by (auto simp: min_def split: if_splits)
  have t3: "3 \<le> length (take n s) \<Longrightarrow> take 3 (take n s) = take 3 s" by (auto simp: min_def split: if_splits)
  have l2: "2 \<le> length (take n s) \<Longrightarrow> 2 \<le> length s" by simp
  have l3: "3 \<le> length (take n s) \<Longrightarrow> 3 \<le> length s" by simp
  from z s have a: "\<not> asciiSpace c" and b: "\<not> (2 \<le> length s \<and> take 2 s \<in> set space2)"
    and c: "\<not> (3 \<le> length s \<and> take 3 s \<in> set space3)"
    by (auto simp: spaceWidthFront_def split: if_splits)
  show ?thesis
    unfolding spaceWidthFront_def using Cons a b c t2 t3 l2 l3
    by (auto simp del: take_take length_take)
qed

lemma TrimLeft_id: "spaceWidthFront s = 0 \<Longrightarrow> TrimLeft s = s"
  by (subst TrimLeft.simps) simp

lemma TrimRight_id: "spaceWidthBack s = 0 \<Longrightarrow> TrimRight s = s"
  by (subst TrimRight.simps) simp

lemma TrimSpace_idem: "TrimSpace (TrimSpace s) = TrimSpace s"
proof -
  obtain n where n: "TrimRight (TrimLeft s) = take n (TrimLeft s)"
    using TrimRight_take by blast
  have "spaceWidthFront (TrimRight (TrimLeft s)) = 0"
    unfolding n by (rule spaceWidthFront_take) (rule TrimLeft_front)
  then have "TrimLeft (TrimRight (TrimLeft s)) = TrimRight (TrimLeft s)"
    by (rule TrimLeft_id)
  then show ?thesis
    by (simp add: TrimSpace_def TrimRight_id TrimRight_back)
qed

text \<open>\<^verbatim>\<open>strings.IndexByte\<close>: the index of the first occurrence of a byte; Go's -1 is \<^term>\<open>None\<close>.\<close>

fun IndexByte :: "string \<Rightarrow> char \<Rightarrow> nat option" where
  "IndexByte [] c = None"
| "IndexByte (x # xs) c = (if x = c then Some 0 else map_option Suc (IndexByte xs c))"

lemma IndexByte_lt: "IndexByte s c = Some i \<Longrightarrow> i < length s"
  by (induction s arbitrary: i) (auto split: if_splits)

text \<open>\<^verbatim>\<open>strings.Count\<close> with a one-byte separator counts the occurrences of that byte.\<close>

definition Count :: "string \<Rightarrow> char \<Rightarrow> nat" where
  "Count s c = length (filter (\<lambda>x. x = c) s)"

text \<open>
  \<^verbatim>\<open>strings.Split\<close> with a one-byte separator: the pieces between the separators, always at
  least one piece. \<^verbatim>\<open>strings.SplitN(s, sep, 2)\<close> cuts at the first separator only.
\<close>

function Split :: "string \<Rightarrow> char \<Rightarrow> string list" where
  "Split s sep =
     (case IndexByte s sep of
        None \<Rightarrow> [s]
      | Some i \<Rightarrow> take i s # Split (drop (i + 1) s) sep)"
  by pat_completeness auto
termination
  by (relation "measure (\<lambda>(s, sep). length s)") (auto dest: IndexByte_lt)

declare Split.simps [simp del]

definition SplitN2 :: "string \<Rightarrow> char \<Rightarrow> string list" where
  "SplitN2 s sep =
     (case IndexByte s sep of
        None \<Rightarrow> [s]
      | Some i \<Rightarrow> [take i s, drop (i + 1) s])"

subsection \<open>splitMediaTypes and quoteCount (lines 201 to 225)\<close>

definition quoteCount :: "string \<Rightarrow> nat" where
  "quoteCount str = Count str (CHR 0x22)"

text \<open>
  The loop of \<^verbatim>\<open>splitMediaTypes\<close>, with the variables \<^verbatim>\<open>accept\<close> and \<^verbatim>\<open>parts\<close> as arguments.
  The \<^verbatim>\<open>continue\<close> of the source goes back to the loop test with \<^verbatim>\<open>accept\<close> trimmed and
  \<^verbatim>\<open>parts\<close> unchanged. The slices \<^verbatim>\<open>accept[:idx]\<close> and \<^verbatim>\<open>accept[idx+1:]\<close> are \<^const>\<open>take\<close> and
  \<^const>\<open>drop\<close>: \<open>idx\<close> is the position of a byte of \<^verbatim>\<open>accept\<close> (\<open>IndexByte_lt\<close>), so both are in
  range.
\<close>

partial_function (option) splitLoop :: "string \<Rightarrow> string list \<Rightarrow> string list option" where
  "splitLoop accept parts =
     (if 0 < length accept then
        (let accept' = TrimSpace accept in
         case IndexByte accept' CHR '','' of
           None \<Rightarrow> Some (parts @ [accept'])
         | Some idx \<Rightarrow>
             if quoteCount (take idx accept') mod 2 = 1 then splitLoop accept' parts
             else splitLoop (drop (idx + 1) accept') (parts @ [take idx accept']))
      else Some parts)"

declare splitLoop.simps [code]

definition splitMediaTypes :: "string \<Rightarrow> string list option" where
  "splitMediaTypes accept = splitLoop accept []"

text \<open>
  A terminating description of the same loop. It answers \<^term>\<open>None\<close> at the first state in
  which the source takes its \<^verbatim>\<open>continue\<close>: there \<^verbatim>\<open>accept\<close> is already trimmed, so the next
  iteration finds the same comma and the same quote count, and the loop never leaves that
  state (\<open>splitLoop_stuck\<close>). \<open>splitLoop_eq\<close> shows that the loop computes exactly this.
\<close>

function splitBounded :: "string \<Rightarrow> string list \<Rightarrow> string list option" where
  "splitBounded accept parts =
     (if 0 < length accept then
        (let accept' = TrimSpace accept in
         case IndexByte accept' CHR '','' of
           None \<Rightarrow> Some (parts @ [accept'])
         | Some idx \<Rightarrow>
             if quoteCount (take idx accept') mod 2 = 1 then None
             else splitBounded (drop (idx + 1) accept') (parts @ [take idx accept']))
      else Some parts)"
  by pat_completeness auto
termination
proof (relation "measure (\<lambda>(accept, parts). length accept)")
  fix accept :: string and parts :: "string list" and a idx
  assume "0 < length accept" and a: "a = TrimSpace accept"
    and "IndexByte a CHR '','' = Some idx"
  then have "idx < length a" by (auto dest: IndexByte_lt)
  moreover have "length a \<le> length accept" unfolding a by (rule TrimSpace_length)
  ultimately show "((drop (idx + 1) a, parts @ [take idx a]), accept, parts)
      \<in> measure (\<lambda>(accept, parts). length accept)"
    by simp
qed simp

declare splitBounded.simps [simp del]

subsection \<open>What the Go runtime and library contribute\<close>

text \<open>
  Three things the code uses are not part of the repository and are parameters of the model:
  \<^item> \<open>EqualFold\<close>: \<^verbatim>\<open>strings.EqualFold\<close>, equality under Unicode case folding;
  \<^item> \<open>ParseFloat\<close>: \<^verbatim>\<open>strconv.ParseFloat(value, 64)\<close>, \<^term>\<open>None\<close> when it returns an error;
  \<^item> \<open>rangeOrder\<close>: the order in which \<^verbatim>\<open>for key, val := range spec.Params\<close> visits the
    entries of the map during the call \<^verbatim>\<open>specify(typ, spec, index)\<close>. Go leaves this order
    unspecified and varies it from one loop to the next.
\<close>

record mediaType =
  Type :: string
  Subtype :: string
  Params :: "(string \<times> string) list"
  Q :: f64
  I :: nat
  S :: nat

text \<open>
  \<^verbatim>\<open>Params\<close> is a Go \<^verbatim>\<open>map[string]string\<close>: an association list with one entry for each key,
  written with \<^const>\<open>AList.update\<close>. Reading a key that is absent gives the empty string.
\<close>

definition lookupParam :: "(string \<times> string) list \<Rightarrow> string \<Rightarrow> string" where
  "lookupParam ps key = (case map_of ps key of None \<Rightarrow> [] | Some v \<Rightarrow> v)"

record runtime =
  EqualFold :: "string \<Rightarrow> string \<Rightarrow> bool"
  ParseFloat :: "string \<Rightarrow> f64 option"
  rangeOrder :: "string \<Rightarrow> nat \<Rightarrow> mediaType \<Rightarrow> (string \<times> string) list"

text \<open>A range loop visits every entry of the map once.\<close>

definition rangesOverParams :: "runtime \<Rightarrow> bool" where
  "rangesOverParams rt = (\<forall>typ index spec. mset (rangeOrder rt typ index spec) = mset (Params spec))"

datatype error = IndexOutOfRange

subsection \<open>parseMediaType (lines 95 to 131)\<close>

text \<open>
  The loop \<^verbatim>\<open>for j := 1; j < len(parts); j++\<close> over the parameter tokens comes first; the
  function itself reads \<^verbatim>\<open>parts[0]\<close>, which panics on an empty slice.
\<close>

fun parseParams :: "runtime \<Rightarrow> string list \<Rightarrow> mediaType \<Rightarrow> mediaType" where
  "parseParams rt [] m = m"
| "parseParams rt (part # parts) m =
     (case SplitN2 part CHR ''='' of
        [k, v] \<Rightarrow>
          (let key = TrimSpace k; val = TrimSpace v in
           if key = ''q'' then
             (case ParseFloat rt val of
                Some q \<Rightarrow> parseParams rt parts (m\<lparr>Q := q\<rparr>)
              | None \<Rightarrow> parseParams rt parts m)
           else parseParams rt parts (m\<lparr>Params := AList.update key val (Params m)\<rparr>))
      | _ \<Rightarrow> parseParams rt parts m)"

definition parseMediaType :: "runtime \<Rightarrow> string \<Rightarrow> nat \<Rightarrow> error + mediaType option" where
  "parseMediaType rt str i =
     (case Split str CHR '';'' of
        [] \<Rightarrow> Inl IndexOutOfRange
      | part0 # parts \<Rightarrow>
          (case SplitN2 part0 CHR ''/'' of
             [t, st] \<Rightarrow>
               Inr (Some (parseParams rt parts
                 \<lparr>Type = TrimSpace t, Subtype = TrimSpace st, Params = [], Q = Fin 1, I = i, S = 0\<rparr>))
           | _ \<Rightarrow> Inr None))"

subsection \<open>parseAccept (lines 80 to 92)\<close>

fun parseAcceptLoop :: "runtime \<Rightarrow> string list \<Rightarrow> nat \<Rightarrow> error + mediaType list" where
  "parseAcceptLoop rt [] i = Inr []"
| "parseAcceptLoop rt (a # accepts) i =
     (case parseMediaType rt (TrimSpace a) i of
        Inl e \<Rightarrow> Inl e
      | Inr mt \<Rightarrow>
          (case parseAcceptLoop rt accepts (Suc i) of
             Inl e \<Rightarrow> Inl e
           | Inr parsedAccepts \<Rightarrow>
               Inr (case mt of None \<Rightarrow> parsedAccepts | Some m \<Rightarrow> m # parsedAccepts)))"

definition parseAccept :: "runtime \<Rightarrow> string \<Rightarrow> (error + mediaType list) option" where
  "parseAccept rt accept =
     (case splitMediaTypes accept of
        None \<Rightarrow> None
      | Some accepts \<Rightarrow> Some (parseAcceptLoop rt accepts 0))"

subsection \<open>specify (lines 151 to 188)\<close>

text \<open>The range loop over \<^verbatim>\<open>spec.Params\<close>, on the entries in the order the runtime visits them.\<close>

fun specifyParams :: "runtime \<Rightarrow> (string \<times> string) list \<Rightarrow> (string \<times> string) list \<Rightarrow> nat \<Rightarrow> nat option" where
  "specifyParams rt pParams [] s = Some s"
| "specifyParams rt pParams ((key, val) # entries) s =
     (if val = ''*'' \<or> EqualFold rt val (lookupParam pParams key)
      then specifyParams rt pParams entries (s OR 1)
      else None)"

definition specify :: "runtime \<Rightarrow> string \<Rightarrow> mediaType \<Rightarrow> nat \<Rightarrow> error + mediaType option" where
  "specify rt typ spec index =
     (case parseMediaType rt typ 0 of
        Inl e \<Rightarrow> Inl e
      | Inr None \<Rightarrow> Inr None
      | Inr (Some p) \<Rightarrow>
          (case (if EqualFold rt (Type spec) (Type p) then Some (0 OR 4)
                 else if Type spec \<noteq> ''*'' then None else Some 0) of
             None \<Rightarrow> Inr None
           | Some s1 \<Rightarrow>
               (case (if EqualFold rt (Subtype spec) (Subtype p) then Some (s1 OR 2)
                      else if Subtype spec \<noteq> ''*'' then None else Some s1) of
                  None \<Rightarrow> Inr None
                | Some s2 \<Rightarrow>
                    (case specifyParams rt (Params p) (rangeOrder rt typ index spec) s2 of
                       None \<Rightarrow> Inr None
                     | Some s3 \<Rightarrow>
                         Inr (Some \<lparr>Type = Type spec, Subtype = Subtype spec, Params = Params spec,
                                    Q = Q spec, I = index, S = s3\<rparr>)))))"

subsection \<open>getMediaTypePriority (lines 134 to 148)\<close>

text \<open>\<open>replaces\<close> is the condition under which the loop assigns \<^verbatim>\<open>priority = spec\<close>.\<close>

definition replaces :: "mediaType option \<Rightarrow> mediaType option \<Rightarrow> bool" where
  "replaces spec priority =
     (case spec of
        None \<Rightarrow> False
      | Some sp \<Rightarrow>
          (case priority of
             None \<Rightarrow> True
           | Some pr \<Rightarrow> S sp > S pr \<or> (S sp = S pr \<and> f64_gt (Q sp) (Q pr))))"

fun priorityLoop :: "runtime \<Rightarrow> string \<Rightarrow> nat \<Rightarrow> mediaType list \<Rightarrow> mediaType option \<Rightarrow> error + mediaType option" where
  "priorityLoop rt typ index [] priority = Inr priority"
| "priorityLoop rt typ index (a # accepted) priority =
     (case specify rt typ a index of
        Inl e \<Rightarrow> Inl e
      | Inr spec \<Rightarrow>
          priorityLoop rt typ index accepted (if replaces spec priority then spec else priority))"

definition getMediaTypePriority :: "runtime \<Rightarrow> string \<Rightarrow> mediaType list \<Rightarrow> nat \<Rightarrow> error + mediaType option" where
  "getMediaTypePriority rt typ accepted index = priorityLoop rt typ index accepted None"

subsection \<open>isQuality and getFullType (lines 191 to 198)\<close>

definition isQuality :: "mediaType \<Rightarrow> bool" where
  "isQuality m = f64_gt (Q m) (Fin 0)"

definition getFullType :: "mediaType \<Rightarrow> string" where
  "getFullType m = Type m @ ''/'' @ Subtype m"

subsection \<open>The sort (lines 41 to 49)\<close>

text \<open>The comparison function handed to \<^verbatim>\<open>sort.SliceStable\<close>.\<close>

definition lessAccepts :: "mediaType \<Rightarrow> mediaType \<Rightarrow> bool" where
  "lessAccepts a b =
     (if f64_ne (Q a) (Q b) then f64_gt (Q a) (Q b)
      else if S a \<noteq> S b then S a > S b
      else I a < I b)"

text \<open>
  \<^verbatim>\<open>sort.SliceStable\<close> is library code. Up to 20 elements it is the insertion sort below: each
  element in turn moves towards the front for as long as it is less than the element before
  it. Longer slices are sorted in blocks of 20 by the same insertion sort and the blocks are
  then merged; when the comparison is a strict weak order this gives the same result, the only
  stable sorted arrangement. \<open>sink\<close> takes the sorted prefix in reverse, nearest element first.
\<close>

fun sink :: "('a \<Rightarrow> 'a \<Rightarrow> bool) \<Rightarrow> 'a \<Rightarrow> 'a list \<Rightarrow> 'a list" where
  "sink lt x [] = [x]"
| "sink lt x (y # ys) = (if lt x y then y # sink lt x ys else x # y # ys)"

definition SliceStable :: "('a \<Rightarrow> 'a \<Rightarrow> bool) \<Rightarrow> 'a list \<Rightarrow> 'a list" where
  "SliceStable lt xs = rev (foldl (\<lambda>prefix x. sink lt x prefix) [] xs)"

text \<open>
  The ordering rule as the specification words it: quality descending, then specificity score
  descending, then original index ascending.
\<close>

definition prefers :: "mediaType \<Rightarrow> mediaType \<Rightarrow> bool" where
  "prefers a b = (f64_gt (Q a) (Q b) \<or> (Q a = Q b \<and> (S b < S a \<or> (S a = S b \<and> I a < I b))))"

text \<open>The comparison function of the sort without its test on the specificity score.\<close>

definition lessWithoutScore :: "mediaType \<Rightarrow> mediaType \<Rightarrow> bool" where
  "lessWithoutScore a b = (if f64_ne (Q a) (Q b) then f64_gt (Q a) (Q b) else I a < I b)"

text \<open>The order that claim C10 describes: quality descending, then header position ascending.\<close>

definition qualityThenPosition :: "mediaType \<Rightarrow> mediaType \<Rightarrow> bool" where
  "qualityThenPosition a b = (f64_gt (Q a) (Q b) \<or> (Q a = Q b \<and> I a < I b))"

subsection \<open>PreferredMediaTypes (lines 35 to 77)\<close>

text \<open>The loop \<^verbatim>\<open>for i, typ := range provided\<close> that fills \<^verbatim>\<open>priorities\<close>.\<close>

fun collectPriorities :: "runtime \<Rightarrow> mediaType list \<Rightarrow> string list \<Rightarrow> nat \<Rightarrow> error + mediaType list" where
  "collectPriorities rt accepts [] i = Inr []"
| "collectPriorities rt accepts (typ # provided) i =
     (case getMediaTypePriority rt typ accepts i of
        Inl e \<Rightarrow> Inl e
      | Inr priority \<Rightarrow>
          (case collectPriorities rt accepts provided (Suc i) of
             Inl e \<Rightarrow> Inl e
           | Inr priorities \<Rightarrow>
               Inr (case priority of None \<Rightarrow> priorities | Some p \<Rightarrow> p # priorities)))"

text \<open>The loop \<^verbatim>\<open>for _, priority := range priorities\<close>; \<^verbatim>\<open>provided[priority.I]\<close> panics out of range.\<close>

fun emitProvided :: "string list \<Rightarrow> mediaType list \<Rightarrow> error + string list" where
  "emitProvided provided [] = Inr []"
| "emitProvided provided (priority # priorities) =
     (if isQuality priority then
        (if I priority < length provided then
           (case emitProvided provided priorities of
              Inl e \<Rightarrow> Inl e
            | Inr types \<Rightarrow> Inr (provided ! I priority # types))
         else Inl IndexOutOfRange)
      else emitProvided provided priorities)"

text \<open>The body of \<^verbatim>\<open>PreferredMediaTypes\<close> from the sort on (lines 41 to 76), given the parsed specs.\<close>

definition preferredOf :: "runtime \<Rightarrow> mediaType list \<Rightarrow> string list \<Rightarrow> error + string list" where
  "preferredOf rt parsed provided =
     (let accepts = SliceStable lessAccepts parsed in
      if length provided = 0 then Inr (map getFullType (filter isQuality accepts))
      else
        (case collectPriorities rt accepts provided 0 of
           Inl e \<Rightarrow> Inl e
         | Inr priorities \<Rightarrow> emitProvided provided priorities))"

definition PreferredMediaTypes :: "runtime \<Rightarrow> string \<Rightarrow> string list \<Rightarrow> (error + string list) option" where
  "PreferredMediaTypes rt accept provided =
     (let accept = (if accept = [] then ''*/*'' else accept) in
      case parseAccept rt accept of
        None \<Rightarrow> None
      | Some (Inl e) \<Rightarrow> Some (Inl e)
      | Some (Inr parsed) \<Rightarrow> Some (preferredOf rt parsed provided))"

text \<open>
  Whether the candidate \<open>c\<close> at position \<open>k\<close> of \<^verbatim>\<open>provided\<close> reaches the output: it has a best
  match and that match passes \<^verbatim>\<open>isQuality\<close>.
\<close>

definition keeps :: "runtime \<Rightarrow> mediaType list \<Rightarrow> string \<times> nat \<Rightarrow> bool" where
  "keeps rt accepts = (\<lambda>(c, k).
     case getMediaTypePriority rt c accepts k of
       Inr (Some p) \<Rightarrow> isQuality p
     | _ \<Rightarrow> False)"

subsection \<open>A runtime to evaluate examples with\<close>

text \<open>
  \<open>asciiEqualFold\<close> folds the letters A to Z only; on strings of ASCII characters this is
  what \<^verbatim>\<open>strings.EqualFold\<close> computes. \<open>decimalFloat\<close> reads \<^verbatim>\<open>NaN\<close> and the unsigned decimal
  literals \<^verbatim>\<open>12\<close>, \<^verbatim>\<open>0.25\<close>, \<^verbatim>\<open>.5\<close>, \<^verbatim>\<open>3.\<close> and gives their exact value; \<^verbatim>\<open>strconv.ParseFloat\<close>
  accepts these strings too and returns the nearest float64, which compares with 0 and with
  the other literals used in the examples below in the same way. (It accepts further
  notations, which the examples do not use.) \<open>exampleRuntime\<close> visits the parameters of a spec
  in the order they were written, \<open>reversingRuntime\<close> in the opposite order.
\<close>

definition asciiLower :: "char \<Rightarrow> char" where
  "asciiLower c = (let n = (of_char c :: nat) in if 65 \<le> n \<and> n \<le> 90 then char_of (n + 32) else c)"

definition asciiEqualFold :: "string \<Rightarrow> string \<Rightarrow> bool" where
  "asciiEqualFold s t = (map asciiLower s = map asciiLower t)"

definition digitValue :: "char \<Rightarrow> nat option" where
  "digitValue c = (let n = (of_char c :: nat) in if 48 \<le> n \<and> n \<le> 57 then Some (n - 48) else None)"

fun digitsValue :: "string \<Rightarrow> nat \<Rightarrow> nat option" where
  "digitsValue [] acc = Some acc"
| "digitsValue (c # cs) acc =
     (case digitValue c of None \<Rightarrow> None | Some d \<Rightarrow> digitsValue cs (10 * acc + d))"

definition decimalFloat :: "string \<Rightarrow> f64 option" where
  "decimalFloat s =
     (if s = ''NaN'' then Some NaN
      else
        (case SplitN2 s CHR ''.'' of
           [ip] \<Rightarrow> if ip = [] then None else map_option (\<lambda>n. Fin (of_nat n)) (digitsValue ip 0)
         | [ip, fp] \<Rightarrow>
             if ip = [] \<and> fp = [] then None
             else
               (case (digitsValue ip 0, digitsValue fp 0) of
                  (Some n, Some m) \<Rightarrow> Some (Fin (of_nat n + of_nat m / 10 ^ length fp))
                | _ \<Rightarrow> None)
         | _ \<Rightarrow> None))"

definition exampleRuntime :: runtime where
  "exampleRuntime =
     \<lparr>EqualFold = asciiEqualFold, ParseFloat = decimalFloat,
      rangeOrder = (\<lambda>typ index spec. Params spec)\<rparr>"

definition reversingRuntime :: runtime where
  "reversingRuntime =
     \<lparr>EqualFold = asciiEqualFold, ParseFloat = decimalFloat,
      rangeOrder = (\<lambda>typ index spec. rev (Params spec))\<rparr>"

section \<open>Properties\<close>

subsection \<open>The segmenter\<close>

lemma splitLoop_stuck:
  assumes "TrimSpace a = a" and "IndexByte a CHR '','' = Some idx"
    and "quoteCount (take idx a) mod 2 = 1"
  shows "splitLoop a parts = None"
proof (rule ccontr)
  assume "splitLoop a parts \<noteq> None"
  then obtain y where y: "splitLoop a parts = Some y" by auto
  have "\<not> (TrimSpace a = a \<and> (\<exists>idx. IndexByte a CHR '','' = Some idx \<and> quoteCount (take idx a) mod 2 = 1))"
  proof (rule splitLoop.raw_induct [where P = "\<lambda>a p y. \<not> (TrimSpace a = a \<and> (\<exists>idx. IndexByte a CHR '','' = Some idx \<and> quoteCount (take idx a) mod 2 = 1))", OF _ y])
    fix f :: "string \<Rightarrow> string list \<Rightarrow> string list option" and a p y
    assume IH: "\<And>a p y. f a p = Some y \<Longrightarrow> \<not> (TrimSpace a = a \<and> (\<exists>idx. IndexByte a CHR '','' = Some idx \<and> quoteCount (take idx a) mod 2 = 1))"
    assume step: "(if 0 < length a then
        (let accept' = TrimSpace a in
         case IndexByte accept' CHR '','' of
           None \<Rightarrow> Some (p @ [accept'])
         | Some idx \<Rightarrow>
             if quoteCount (take idx accept') mod 2 = 1 then f accept' p
             else f (drop (idx + 1) accept') (p @ [take idx accept']))
      else Some p) = Some y"
    show "\<not> (TrimSpace a = a \<and> (\<exists>idx. IndexByte a CHR '','' = Some idx \<and> quoteCount (take idx a) mod 2 = 1))"
    proof
      assume st: "TrimSpace a = a \<and> (\<exists>idx. IndexByte a CHR '','' = Some idx \<and> quoteCount (take idx a) mod 2 = 1)"
      then obtain idx where i: "IndexByte a CHR '','' = Some idx" "quoteCount (take idx a) mod 2 = 1" by blast
      from i(1) have "a \<noteq> []" by auto
      with step st i have "f a p = Some y" by (simp add: Let_def)
      from IH [OF this] st show False by blast
    qed
  qed
  with assms show False by blast
qed

lemma splitLoop_eq: "splitLoop accept parts = splitBounded accept parts"
proof (induction accept parts rule: splitBounded.induct)
  case (1 accept parts)
  show ?case
  proof (cases "0 < length accept")
    case False
    then show ?thesis by (simp add: splitLoop.simps splitBounded.simps)
  next
    case True
    note nonempty = this
    show ?thesis
    proof (cases "IndexByte (TrimSpace accept) CHR '',''")
      case None
      with nonempty show ?thesis
        by (subst splitLoop.simps, subst splitBounded.simps) simp
    next
      case (Some idx)
      show ?thesis
      proof (cases "quoteCount (take idx (TrimSpace accept)) mod 2 = 1")
        case True
        have "splitLoop (TrimSpace accept) parts = None"
          using TrimSpace_idem Some True by (rule splitLoop_stuck)
        with nonempty Some True show ?thesis
          by (subst splitLoop.simps, subst splitBounded.simps) simp
      next
        case False
        have "splitLoop (drop (idx + 1) (TrimSpace accept)) (parts @ [take idx (TrimSpace accept)])
            = splitBounded (drop (idx + 1) (TrimSpace accept)) (parts @ [take idx (TrimSpace accept)])"
          using nonempty Some False by (intro "1.IH") auto
        with nonempty Some False show ?thesis
          by (subst splitLoop.simps, subst splitBounded.simps) simp
      qed
    qed
  qed
qed

text \<open>A header without a double quote is always split: the loop returns.\<close>

lemma TrimLeft_subset: "set (TrimLeft s) \<subseteq> set s"
proof (induction s rule: TrimLeft.induct)
  case (1 s)
  show ?case
  proof (cases "0 < spaceWidthFront s")
    case True
    with 1 have "set (TrimLeft (drop (spaceWidthFront s) s)) \<subseteq> set (drop (spaceWidthFront s) s)" by simp
    moreover have "set (drop (spaceWidthFront s) s) \<subseteq> set s" by (rule set_drop_subset)
    ultimately show ?thesis using True by (subst TrimLeft.simps) auto
  next
    case False
    then show ?thesis by (subst TrimLeft.simps) simp
  qed
qed

lemma TrimSpace_subset: "set (TrimSpace s) \<subseteq> set s"
proof -
  obtain n where "TrimRight (TrimLeft s) = take n (TrimLeft s)" using TrimRight_take by blast
  then have "set (TrimSpace s) \<subseteq> set (TrimLeft s)"
    unfolding TrimSpace_def by (simp add: set_take_subset)
  with TrimLeft_subset show ?thesis by blast
qed

lemma splitBounded_without_quotes:
  assumes "CHR 0x22 \<notin> set accept"
  shows "\<exists>segs. splitBounded accept parts = Some segs"
  using assms
proof (induction accept parts rule: splitBounded.induct)
  case (1 accept parts)
  show ?case
  proof (cases "0 < length accept")
    case False
    then show ?thesis by (subst splitBounded.simps) simp
  next
    case True
    have noq: "CHR 0x22 \<notin> set (TrimSpace accept)" using "1.prems" TrimSpace_subset by blast
    show ?thesis
    proof (cases "IndexByte (TrimSpace accept) CHR '',''")
      case None
      with True show ?thesis by (subst splitBounded.simps) simp
    next
      case (Some idx)
      have "CHR 0x22 \<notin> set (take idx (TrimSpace accept))"
        using noq by (meson in_set_takeD)
      then have "filter (\<lambda>x. x = CHR 0x22) (take idx (TrimSpace accept)) = []"
        by (auto simp: filter_empty_conv)
      then have even: "quoteCount (take idx (TrimSpace accept)) mod 2 \<noteq> 1"
        by (simp add: quoteCount_def Count_def)
      have "CHR 0x22 \<notin> set (drop (idx + 1) (TrimSpace accept))"
        using noq by (meson in_set_dropD)
      with "1.IH" [OF True refl Some even]
      obtain segs where "splitBounded (drop (idx + 1) (TrimSpace accept)) (parts @ [take idx (TrimSpace accept)]) = Some segs"
        by blast
      with True Some even show ?thesis by (subst splitBounded.simps) simp
    qed
  qed
qed

lemma splitMediaTypes_without_quotes:
  "CHR 0x22 \<notin> set accept \<Longrightarrow> \<exists>segs. splitMediaTypes accept = Some segs"
  unfolding splitMediaTypes_def splitLoop_eq by (rule splitBounded_without_quotes)

subsection \<open>No call panics\<close>

lemma IndexByte_None_iff: "IndexByte s c = None \<longleftrightarrow> c \<notin> set s"
  by (induction s) auto

lemma IndexByte_Some_mem: "IndexByte s c = Some i \<Longrightarrow> c \<in> set s"
  using IndexByte_None_iff [of s c] by auto

lemma Split_nonempty: "Split s sep \<noteq> []"
  by (subst Split.simps) (simp split: option.split)

lemma parseMediaType_Inr: "\<exists>r. parseMediaType rt str i = Inr r"
  using Split_nonempty [of str "CHR '';''"]
  by (auto simp: parseMediaType_def SplitN2_def split: list.split option.split)

lemma parseMediaType_None_iff:
  assumes "Split str CHR '';'' = part0 # parts"
  shows "parseMediaType rt str i = Inr None \<longleftrightarrow> CHR ''/'' \<notin> set part0"
  using assms
  by (auto simp: parseMediaType_def SplitN2_def IndexByte_None_iff dest: IndexByte_Some_mem split: list.split option.split)

lemma specify_Inr: "\<exists>r. specify rt typ spec index = Inr r"
  using parseMediaType_Inr [of rt "typ" 0]
  by (auto simp: specify_def split: option.split if_splits)

lemma specify_fields:
  assumes "specify rt typ spec index = Inr (Some r)"
  shows "Type r = Type spec \<and> Subtype r = Subtype spec \<and> Params r = Params spec \<and> Q r = Q spec \<and> I r = index"
  using assms
  by (auto simp: specify_def split: option.splits if_splits sum.splits)

lemma priorityLoop_Inr: "\<exists>r. priorityLoop rt typ index accepted priority = Inr r"
proof (induction accepted arbitrary: priority)
  case Nil
  show ?case by simp
next
  case (Cons a accepted)
  obtain sp where "specify rt typ a index = Inr sp" using specify_Inr by blast
  then show ?case using Cons.IH by simp
qed

lemma getMediaTypePriority_Inr: "\<exists>r. getMediaTypePriority rt typ accepted index = Inr r"
  unfolding getMediaTypePriority_def by (rule priorityLoop_Inr)

lemma priorityLoop_source:
  assumes "priorityLoop rt typ index accepted priority = Inr (Some r)"
  shows "priority = Some r \<or> (\<exists>a \<in> set accepted. specify rt typ a index = Inr (Some r))"
  using assms
proof (induction accepted arbitrary: priority)
  case Nil
  then show ?case by simp
next
  case (Cons a accepted)
  obtain sp where sp: "specify rt typ a index = Inr sp" using specify_Inr by blast
  with Cons.prems
  have "priorityLoop rt typ index accepted (if replaces sp priority then sp else priority) = Inr (Some r)"
    by simp
  from Cons.IH [OF this] sp show ?case by (auto split: if_splits)
qed

lemma getMediaTypePriority_index:
  assumes "getMediaTypePriority rt typ accepted index = Inr (Some r)"
  shows "I r = index"
  using priorityLoop_source [OF assms [unfolded getMediaTypePriority_def]] specify_fields by blast

lemma collect_emit:
  assumes "length pre = i"
  shows "\<exists>ps. collectPriorities rt accepts cs i = Inr ps \<and>
    emitProvided (pre @ cs) ps = Inr (map fst (filter (keeps rt accepts) (zip cs [i ..< i + length cs])))"
  using assms
proof (induction cs arbitrary: i pre)
  case Nil
  show ?case by simp
next
  case (Cons c cs)
  have len: "length (pre @ [c]) = Suc i" using Cons.prems by simp
  from Cons.IH [OF len] obtain ps where
    ps: "collectPriorities rt accepts cs (Suc i) = Inr ps"
    and em: "emitProvided (pre @ c # cs) ps = Inr (map fst (filter (keeps rt accepts) (zip cs [Suc i ..< Suc i + length cs])))"
    by auto
  obtain r where r: "getMediaTypePriority rt c accepts i = Inr r"
    using getMediaTypePriority_Inr by blast
  have upt: "[i ..< i + length (c # cs)] = i # [Suc i ..< Suc i + length cs]"
    using upt_conv_Cons [of i "Suc (i + length cs)"] by simp
  show ?case
  proof (cases r)
    case None
    with r ps em upt show ?thesis by (simp add: keeps_def)
  next
    case (Some p)
    have ip: "I p = i" using r Some getMediaTypePriority_index by blast
    have nth: "(pre @ c # cs) ! i = c" using Cons.prems by (simp add: nth_append)
    have lt: "i < length (pre @ c # cs)" using Cons.prems by simp
    show ?thesis using r Some ps em ip nth lt unfolding upt
      by (simp add: keeps_def)
  qed
qed

lemma preferredOf_candidates:
  assumes "provided \<noteq> []"
  shows "preferredOf rt parsed provided =
    Inr (map fst (filter (keeps rt (SliceStable lessAccepts parsed)) (zip provided [0 ..< length provided])))"
  using collect_emit [of "[]" 0 rt "SliceStable lessAccepts parsed" provided] assms
  by (auto simp: preferredOf_def)

lemma parseAcceptLoop_Inr: "\<exists>ms. parseAcceptLoop rt segs i = Inr ms"
proof (induction segs arbitrary: i)
  case Nil
  show ?case by simp
next
  case (Cons a segs)
  obtain r where "parseMediaType rt (TrimSpace a) i = Inr r" using parseMediaType_Inr by blast
  moreover obtain ms where "parseAcceptLoop rt segs (Suc i) = Inr ms" using Cons.IH by blast
  ultimately show ?case by simp
qed

lemma preferredOf_Inr: "\<exists>out. preferredOf rt parsed provided = Inr out"
  by (cases "provided = []") (simp_all add: preferredOf_candidates, simp add: preferredOf_def)

lemma PreferredMediaTypes_no_panic: "PreferredMediaTypes rt accept provided \<noteq> Some (Inl e)"
proof -
  have "parseAccept rt a \<noteq> Some (Inl e')" for a e'
  proof (cases "splitMediaTypes a")
    case None
    then show ?thesis by (simp add: parseAccept_def)
  next
    case (Some segs)
    obtain ms where "parseAcceptLoop rt segs 0 = Inr ms" using parseAcceptLoop_Inr by blast
    with Some show ?thesis by (simp add: parseAccept_def)
  qed
  moreover have "preferredOf rt parsed provided \<noteq> Inl e" for parsed
    using preferredOf_Inr [of rt parsed provided] by auto
  ultimately show ?thesis
    by (auto simp: PreferredMediaTypes_def Let_def split: option.splits sum.splits)
qed

subsection \<open>The sort\<close>

lemma f64_gt_irrefl: "\<not> f64_gt a a"
  by (cases a) auto

lemma f64_gt_asym: "f64_gt a b \<Longrightarrow> \<not> f64_gt b a"
  by (cases a; cases b) auto

lemma f64_gt_trans: "f64_gt a b \<Longrightarrow> f64_gt b c \<Longrightarrow> f64_gt a c"
  by (cases a; cases b; cases c) auto

lemma f64_gt_total: "a \<noteq> NaN \<Longrightarrow> b \<noteq> NaN \<Longrightarrow> a \<noteq> b \<Longrightarrow> f64_gt a b \<or> f64_gt b a"
  by (cases a; cases b) auto

lemma f64_gt_NaN [simp]: "\<not> f64_gt a NaN" "\<not> f64_gt NaN a"
  by (cases a; simp)+

lemma lessAccepts_prefers:
  "Q a \<noteq> NaN \<Longrightarrow> Q b \<noteq> NaN \<Longrightarrow> lessAccepts a b = prefers a b"
  by (auto simp: lessAccepts_def prefers_def f64_ne_def f64_gt_irrefl)

lemma prefers_trans: "prefers a b \<Longrightarrow> prefers b c \<Longrightarrow> prefers a c"
  unfolding prefers_def using f64_gt_trans [of "Q a" "Q b" "Q c"] by auto

lemma prefers_total:
  "Q a \<noteq> NaN \<Longrightarrow> Q b \<noteq> NaN \<Longrightarrow> I a \<noteq> I b \<Longrightarrow> prefers a b \<or> prefers b a"
  unfolding prefers_def using f64_gt_total [of "Q a" "Q b"] by (cases "Q a = Q b") auto

lemma mset_sink: "mset (sink lt x ys) = add_mset x (mset ys)"
  by (induction ys) auto

lemma mset_SliceStable_aux: "mset (foldl (\<lambda>prefix x. sink lt x prefix) acc xs) = mset acc + mset xs"
  by (induction xs arbitrary: acc) (auto simp: mset_sink)

lemma mset_SliceStable: "mset (SliceStable lt xs) = mset xs"
  by (simp add: SliceStable_def mset_SliceStable_aux)

lemma set_SliceStable: "set (SliceStable lt xs) = set xs"
  by (rule mset_eq_setD) (rule mset_SliceStable)

lemma set_sink: "set (sink lt x ys) = insert x (set ys)"
  by (induction ys) auto

lemma sorted_sink:
  assumes "sorted_wrt lt (rev ys)"
    and sub: "insert x (set ys) \<subseteq> A"
    and tot: "\<forall>y \<in> set ys. lt x y \<or> lt y x"
    and tr: "\<forall>a \<in> A. \<forall>b \<in> A. \<forall>c \<in> A. lt a b \<longrightarrow> lt b c \<longrightarrow> lt a c"
  shows "sorted_wrt lt (rev (sink lt x ys))"
  using assms(1,2,3)
proof (induction ys)
  case Nil
  show ?case by simp
next
  case (Cons y ys)
  from Cons.prems(1) have sorted_ys: "sorted_wrt lt (rev ys)" and below_y: "\<forall>z \<in> set ys. lt z y"
    by (auto simp: sorted_wrt_append)
  have xA: "x \<in> A" and yA: "y \<in> A" and ysA: "set ys \<subseteq> A"
    using Cons.prems(2) by auto
  show ?case
  proof (cases "lt x y")
    case True
    have "sorted_wrt lt (rev (sink lt x ys))"
    proof (rule Cons.IH [OF sorted_ys])
      show "insert x (set ys) \<subseteq> A" using xA ysA by blast
      show "\<forall>y\<in>set ys. lt x y \<or> lt y x" using Cons.prems(3) by simp
    qed
    moreover have "\<forall>z \<in> set (sink lt x ys). lt z y"
      using True below_y by (simp add: set_sink)
    ultimately show ?thesis using True by (simp add: sorted_wrt_append)
  next
    case False
    then have yx: "lt y x" using Cons.prems(3) by auto
    have "\<forall>z \<in> set ys. lt z x"
    proof
      fix z assume z: "z \<in> set ys"
      then have zy: "lt z y" using below_y by blast
      have "z \<in> A" using z ysA by blast
      with tr zy yx xA yA show "lt z x" by blast
    qed
    with yx False Cons.prems(1) show ?thesis by (simp add: sorted_wrt_append)
  qed
qed

lemma sorted_foldl_sink:
  assumes "sorted_wrt lt (rev acc)"
    and "distinct (map key (acc @ xs))"
    and sub: "set (acc @ xs) \<subseteq> A"
    and tot: "\<forall>a \<in> A. \<forall>b \<in> A. key a \<noteq> key b \<longrightarrow> lt a b \<or> lt b a"
    and tr: "\<forall>a \<in> A. \<forall>b \<in> A. \<forall>c \<in> A. lt a b \<longrightarrow> lt b c \<longrightarrow> lt a c"
  shows "sorted_wrt lt (rev (foldl (\<lambda>prefix x. sink lt x prefix) acc xs))"
  using assms(1,2,3)
proof (induction xs arbitrary: acc)
  case Nil
  then show ?case by simp
next
  case (Cons x xs)
  have xA: "x \<in> A" and accA: "set acc \<subseteq> A" and xsA: "set xs \<subseteq> A"
    using Cons.prems(3) by auto
  have s1: "sorted_wrt lt (rev (sink lt x acc))"
  proof (rule sorted_sink [where A = A])
    show "sorted_wrt lt (rev acc)" by (rule Cons.prems(1))
    show "insert x (set acc) \<subseteq> A" using xA accA by blast
    show "\<forall>y\<in>set acc. lt x y \<or> lt y x"
    proof
      fix y assume y: "y \<in> set acc"
      with Cons.prems(2) have "key x \<noteq> key y" by auto
      moreover have "y \<in> A" using y accA by blast
      ultimately show "lt x y \<or> lt y x" using tot xA by blast
    qed
    show "\<forall>a\<in>A. \<forall>b\<in>A. \<forall>c\<in>A. lt a b \<longrightarrow> lt b c \<longrightarrow> lt a c" by (rule tr)
  qed
  have st: "set (sink lt x acc @ xs) \<subseteq> A"
    using xA accA xsA by (simp add: set_sink)
  have "mset (map key (sink lt x acc @ xs)) = mset (map key (acc @ x # xs))"
    by (simp add: mset_sink)
  then have d: "distinct (map key (sink lt x acc @ xs))"
    using Cons.prems(2) mset_eq_imp_distinct_iff by blast
  show ?case
    unfolding foldl_Cons by (rule Cons.IH [OF s1 d st])
qed

lemma sorted_SliceStable:
  assumes "distinct (map key xs)"
    and "\<forall>a \<in> set xs. \<forall>b \<in> set xs. key a \<noteq> key b \<longrightarrow> lt a b \<or> lt b a"
    and "\<forall>a \<in> set xs. \<forall>b \<in> set xs. \<forall>c \<in> set xs. lt a b \<longrightarrow> lt b c \<longrightarrow> lt a c"
  shows "sorted_wrt lt (SliceStable lt xs)"
proof -
  have "sorted_wrt lt (rev (foldl (\<lambda>prefix x. sink lt x prefix) [] xs))"
  proof (rule sorted_foldl_sink [where key = key and A = "set xs"])
    show "sorted_wrt lt (rev [])" by simp
    show "distinct (map key ([] @ xs))" using assms(1) by simp
    show "set ([] @ xs) \<subseteq> set xs" by simp
  qed (rule assms(2), rule assms(3))
  then show ?thesis by (simp only: SliceStable_def)
qed

lemma sink_cong:
  assumes "\<forall>y \<in> set ys. lt x y = lt' x y"
  shows "sink lt x ys = sink lt' x ys"
  using assms by (induction ys) auto

lemma foldl_sink_cong:
  assumes "set acc \<union> set xs \<subseteq> A" and "\<forall>x \<in> A. \<forall>y \<in> A. lt x y = lt' x y"
  shows "foldl (\<lambda>prefix x. sink lt x prefix) acc xs = foldl (\<lambda>prefix x. sink lt' x prefix) acc xs"
  using assms(1)
proof (induction xs arbitrary: acc)
  case Nil
  show ?case by simp
next
  case (Cons x xs)
  have "\<forall>y \<in> set acc. lt x y = lt' x y" using Cons.prems assms(2) by auto
  then have step: "sink lt x acc = sink lt' x acc" by (rule sink_cong)
  have "set (sink lt' x acc) \<union> set xs \<subseteq> A" using Cons.prems by (auto simp: set_sink)
  from Cons.IH [OF this] step show ?case by simp
qed

lemma SliceStable_cong:
  assumes "\<forall>x \<in> set xs. \<forall>y \<in> set xs. lt x y = lt' x y"
  shows "SliceStable lt xs = SliceStable lt' xs"
  unfolding SliceStable_def using foldl_sink_cong [of "[]" xs "set xs" lt lt'] assms by simp

subsection \<open>Parsed specs and their order\<close>

lemma sorted_wrt_unique:
  assumes "sorted_wrt R xs" and "sorted_wrt R ys" and "mset xs = mset ys"
    and asym: "\<forall>a \<in> set xs. \<forall>b \<in> set xs. R a b \<longrightarrow> \<not> R b a"
  shows "xs = ys"
  using assms
proof (induction xs arbitrary: ys)
  case Nil
  then show ?case by simp
next
  case (Cons x xs)
  from Cons.prems(3) have "ys \<noteq> []" by auto
  then obtain y ys' where ys: "ys = y # ys'" by (cases ys) auto
  have sets: "set (x # xs) = set (y # ys')"
    using Cons.prems(3) unfolding ys by (rule mset_eq_setD)
  have "x = y"
  proof (rule ccontr)
    assume ne: "x \<noteq> y"
    with sets have "x \<in> set ys'" and "y \<in> set xs" by auto
    with Cons.prems(1,2) have "R y x" and "R x y" unfolding ys by auto
    moreover have "x \<in> set (x # xs)" "y \<in> set (x # xs)" using \<open>y \<in> set xs\<close> by simp_all
    ultimately show False using Cons.prems(4) by blast
  qed
  moreover have "xs = ys'"
  proof (rule Cons.IH)
    show "sorted_wrt R xs" using Cons.prems(1) by simp
    show "sorted_wrt R ys'" using Cons.prems(2) unfolding ys by simp
    show "mset xs = mset ys'" using Cons.prems(3) \<open>x = y\<close> unfolding ys by simp
    show "\<forall>a\<in>set xs. \<forall>b\<in>set xs. R a b \<longrightarrow> \<not> R b a" using Cons.prems(4) by simp
  qed
  ultimately show ?case unfolding ys by simp
qed

lemma parseParams_fixed:
  "I (parseParams rt parts m) = I m \<and> S (parseParams rt parts m) = S m
   \<and> Type (parseParams rt parts m) = Type m \<and> Subtype (parseParams rt parts m) = Subtype m"
  by (induction rt parts m rule: parseParams.induct)
     (auto simp: Let_def split: list.splits option.splits)

lemma parseMediaType_fields:
  assumes "parseMediaType rt str i = Inr (Some m)"
  shows "I m = i \<and> S m = 0"
  using assms parseParams_fixed
  by (auto simp: parseMediaType_def split: list.splits)

lemma parseAcceptLoop_fields:
  assumes "parseAcceptLoop rt segs i = Inr ms"
  shows "sorted_wrt (<) (map I ms) \<and> (\<forall>m \<in> set ms. i \<le> I m \<and> S m = 0)"
  using assms
proof (induction segs arbitrary: i ms)
  case Nil
  then show ?case by simp
next
  case (Cons a segs)
  obtain r where r: "parseMediaType rt (TrimSpace a) i = Inr r" using parseMediaType_Inr by blast
  obtain ms' where ms': "parseAcceptLoop rt segs (Suc i) = Inr ms'" using parseAcceptLoop_Inr by blast
  from Cons.IH [OF ms'] have ih: "sorted_wrt (<) (map I ms')" "\<forall>m \<in> set ms'. Suc i \<le> I m \<and> S m = 0"
    by auto
  show ?case
  proof (cases r)
    case None
    with r ms' Cons.prems have "ms = ms'" by simp
    with ih show ?thesis by auto
  next
    case (Some m)
    with r ms' Cons.prems have ms: "ms = m # ms'" by simp
    from r Some have "I m = i" "S m = 0" using parseMediaType_fields by blast+
    with ih show ?thesis unfolding ms by auto
  qed
qed

lemma parseAccept_fields:
  assumes "parseAccept rt accept = Some (Inr parsed)"
  shows "sorted_wrt (<) (map I parsed)" and "\<forall>m \<in> set parsed. S m = 0"
  using assms parseAcceptLoop_fields [of rt _ 0 parsed]
  by (auto simp: parseAccept_def split: option.splits)

lemma sorted_accepts:
  assumes "sorted_wrt (<) (map I parsed)" and nan: "\<forall>m \<in> set parsed. Q m \<noteq> NaN"
  shows "sorted_wrt prefers (SliceStable lessAccepts parsed)"
proof -
  have d: "distinct (map I parsed)" using assms(1) strict_sorted_iff by blast
  have "sorted_wrt lessAccepts (SliceStable lessAccepts parsed)"
  proof (rule sorted_SliceStable [where key = I, OF d])
    show "\<forall>a\<in>set parsed. \<forall>b\<in>set parsed. I a \<noteq> I b \<longrightarrow> lessAccepts a b \<or> lessAccepts b a"
      using nan by (auto simp: lessAccepts_prefers dest: prefers_total)
    show "\<forall>a\<in>set parsed. \<forall>b\<in>set parsed. \<forall>c\<in>set parsed. lessAccepts a b \<longrightarrow> lessAccepts b c \<longrightarrow> lessAccepts a c"
      using nan by (auto simp: lessAccepts_prefers dest: prefers_trans)
  qed
  then show ?thesis
  proof (rule sorted_wrt_mono_rel [rotated])
    fix a b assume "a \<in> set (SliceStable lessAccepts parsed)" "b \<in> set (SliceStable lessAccepts parsed)"
      and "lessAccepts a b"
    then show "prefers a b" using nan by (simp add: set_SliceStable lessAccepts_prefers)
  qed
qed

lemma stable_accepts:
  assumes asc: "sorted_wrt (<) (map I parsed)" and nan: "\<forall>m \<in> set parsed. Q m \<noteq> NaN"
  shows "filter (\<lambda>m. Q m = q \<and> S m = s) (SliceStable lessAccepts parsed) = filter (\<lambda>m. Q m = q \<and> S m = s) parsed"
proof (rule sorted_wrt_unique [where R = "\<lambda>a b. I a < I b"])
  let ?P = "\<lambda>m. Q m = q \<and> S m = s"
  have "sorted_wrt prefers (filter ?P (SliceStable lessAccepts parsed))"
    using sorted_accepts [OF asc nan] by (rule sorted_wrt_filter)
  then show "sorted_wrt (\<lambda>a b. I a < I b) (filter ?P (SliceStable lessAccepts parsed))"
  proof (rule sorted_wrt_mono_rel [rotated])
    fix a b
    assume "a \<in> set (filter ?P (SliceStable lessAccepts parsed))"
      "b \<in> set (filter ?P (SliceStable lessAccepts parsed))" "prefers a b"
    then show "I a < I b" by (auto simp: prefers_def f64_gt_irrefl)
  qed
  have "sorted_wrt (\<lambda>a b. I a < I b) parsed" using asc by (simp add: sorted_wrt_map)
  then show "sorted_wrt (\<lambda>a b. I a < I b) (filter ?P parsed)" by (rule sorted_wrt_filter)
  show "mset (filter ?P (SliceStable lessAccepts parsed)) = mset (filter ?P parsed)"
    by (simp add: mset_SliceStable)
  show "\<forall>a\<in>set (filter ?P (SliceStable lessAccepts parsed)). \<forall>b\<in>set (filter ?P (SliceStable lessAccepts parsed)). I a < I b \<longrightarrow> \<not> I b < I a"
    by auto
qed

lemma PreferredMediaTypes_parsed:
  assumes "parseAccept rt (if accept = [] then ''*/*'' else accept) = Some (Inr parsed)"
  shows "PreferredMediaTypes rt accept provided = Some (preferredOf rt parsed provided)"
  using assms by (simp add: PreferredMediaTypes_def Let_def)

lemma qualityThenPosition_prefers:
  "S a = S b \<Longrightarrow> qualityThenPosition a b = prefers a b"
  by (auto simp: qualityThenPosition_def prefers_def)

subsection \<open>The best match\<close>

lemma replaces_trans:
  "replaces (Some a) (Some b) \<Longrightarrow> replaces (Some b) (Some c) \<Longrightarrow> replaces (Some a) (Some c)"
  using f64_gt_trans [of "Q a" "Q b" "Q c"] by (auto simp: replaces_def)

lemma replaces_irrefl: "\<not> replaces (Some a) (Some a)"
  by (simp add: replaces_def f64_gt_irrefl)

lemma priorityLoop_invariant:
  assumes "priorityLoop rt typ index accepted priority = Inr (Some r)"
    and "\<forall>m \<in> Seen. \<forall>p. priority = Some p \<longrightarrow> \<not> replaces (Some m) (Some p)"
    and "priority = None \<longrightarrow> Seen = {}"
  shows "(\<forall>m \<in> Seen. \<not> replaces (Some m) (Some r))
       \<and> (\<forall>a \<in> set accepted. \<forall>m. specify rt typ a index = Inr (Some m) \<longrightarrow> \<not> replaces (Some m) (Some r))"
  using assms
proof (induction accepted arbitrary: priority Seen)
  case Nil
  then show ?case by simp
next
  case (Cons a accepted)
  obtain sp where sp: "specify rt typ a index = Inr sp" using specify_Inr by blast
  let ?next = "if replaces sp priority then sp else priority"
  let ?Seen = "Seen \<union> {m. sp = Some m}"
  from Cons.prems(1) sp have run: "priorityLoop rt typ index accepted ?next = Inr (Some r)" by simp
  have inv: "\<forall>m \<in> ?Seen. \<forall>p. ?next = Some p \<longrightarrow> \<not> replaces (Some m) (Some p)"
  proof (intro ballI allI impI)
    fix m p assume m: "m \<in> ?Seen" and p: "?next = Some p"
    show "\<not> replaces (Some m) (Some p)"
    proof (cases "replaces sp priority")
      case True
      with p have spp: "sp = Some p" by simp
      show ?thesis
      proof (cases "m \<in> Seen")
        case False
        with m spp have "m = p" by simp
        then show ?thesis by (simp add: replaces_irrefl)
      next
        case inSeen: True
        with Cons.prems(3) obtain q where q: "priority = Some q" by (cases priority) auto
        with inSeen Cons.prems(2) have "\<not> replaces (Some m) (Some q)" by blast
        moreover from True spp q have "replaces (Some p) (Some q)" by simp
        ultimately show ?thesis using replaces_trans by blast
      qed
    next
      case False
      with p have pp: "priority = Some p" by simp
      show ?thesis
      proof (cases "m \<in> Seen")
        case True
        with Cons.prems(2) pp show ?thesis by blast
      next
        case notSeen: False
        with m have "sp = Some m" by simp
        with False pp show ?thesis by simp
      qed
    qed
  qed
  have emp: "?next = None \<longrightarrow> ?Seen = {}"
    using Cons.prems(3) by (cases sp; cases priority) (auto simp: replaces_def)
  from Cons.IH [OF run inv emp] sp show ?case by auto
qed

lemma priorityLoop_None_iff:
  "priorityLoop rt typ index accepted priority = Inr None
     \<longleftrightarrow> priority = None \<and> (\<forall>a \<in> set accepted. specify rt typ a index = Inr None)"
proof (induction accepted arbitrary: priority)
  case Nil
  show ?case by simp
next
  case (Cons a accepted)
  obtain sp where sp: "specify rt typ a index = Inr sp" using specify_Inr by blast
  show ?case
    using sp Cons.IH [of "if replaces sp priority then sp else priority"]
    by (cases sp; cases priority) (auto simp: replaces_def)
qed

subsection \<open>The specificity matcher\<close>

lemma specifyParams_Some_iff:
  "specifyParams rt pParams entries s = Some s'
     \<longleftrightarrow> (\<forall>(key, val) \<in> set entries. val = ''*'' \<or> EqualFold rt val (lookupParam pParams key))
         \<and> s' = (if entries = [] then s else s OR 1)"
proof (induction entries arbitrary: s)
  case Nil
  show ?case by auto
next
  case (Cons e entries)
  obtain key val where e: "e = (key, val)" by (cases e)
  have idem: "s OR 1 OR 1 = s OR 1" by (simp add: or.assoc)
  show ?case unfolding e using Cons.IH [of "s OR 1"] idem by auto
qed

lemma specifyParams_None_iff:
  "specifyParams rt pParams entries s = None
     \<longleftrightarrow> (\<exists>(key, val) \<in> set entries. val \<noteq> ''*'' \<and> \<not> EqualFold rt val (lookupParam pParams key))"
proof -
  have "specifyParams rt pParams entries s = None \<longleftrightarrow> (\<forall>s'. specifyParams rt pParams entries s \<noteq> Some s')"
    by auto
  then show ?thesis unfolding specifyParams_Some_iff by auto
qed

lemma specifyParams_order:
  assumes "mset entries' = mset entries"
  shows "specifyParams rt pParams entries' s = specifyParams rt pParams entries s"
proof -
  have "set entries' = set entries" using assms by (rule mset_eq_setD)
  moreover have "entries' = [] \<longleftrightarrow> entries = []" using assms by (metis mset_zero_iff)
  ultimately have eq: "specifyParams rt pParams entries' s = Some s' \<longleftrightarrow> specifyParams rt pParams entries s = Some s'" for s'
    unfolding specifyParams_Some_iff by simp
  show ?thesis
  proof (cases "specifyParams rt pParams entries s")
    case (Some s')
    with eq [of s'] show ?thesis by simp
  next
    case None
    show ?thesis
    proof (cases "specifyParams rt pParams entries' s")
      case (Some s')
      with eq [of s'] None show ?thesis by simp
    next
      case None': None
      with None show ?thesis by simp
    qed
  qed
qed

lemma specify_parsed:
  assumes "rangesOverParams rt" and p: "parseMediaType rt typ 0 = Inr (Some p)"
  shows "specify rt typ spec index =
    (if (\<not> EqualFold rt (Type spec) (Type p) \<and> Type spec \<noteq> ''*'')
        \<or> (\<not> EqualFold rt (Subtype spec) (Subtype p) \<and> Subtype spec \<noteq> ''*'')
        \<or> (\<exists>(key, val) \<in> set (Params spec). val \<noteq> ''*'' \<and> \<not> EqualFold rt val (lookupParam (Params p) key))
     then Inr None
     else Inr (Some \<lparr>Type = Type spec, Subtype = Subtype spec, Params = Params spec, Q = Q spec, I = index,
            S = (if EqualFold rt (Type spec) (Type p) then 4 else 0)
                OR (if EqualFold rt (Subtype spec) (Subtype p) then 2 else 0)
                OR (if Params spec \<noteq> [] then 1 else 0)\<rparr>))"
proof -
  have st: "set (rangeOrder rt typ index spec) = set (Params spec)"
    using assms(1) unfolding rangesOverParams_def by (metis mset_eq_setD)
  have em: "rangeOrder rt typ index spec = [] \<longleftrightarrow> Params spec = []"
    using assms(1) unfolding rangesOverParams_def by (metis mset_zero_iff)
  have params: "specifyParams rt (Params p) (rangeOrder rt typ index spec) s2 =
      (if \<exists>(key, val) \<in> set (Params spec). val \<noteq> ''*'' \<and> \<not> EqualFold rt val (lookupParam (Params p) key)
       then None else Some (if Params spec \<noteq> [] then s2 OR 1 else s2))" for s2
  proof (cases "specifyParams rt (Params p) (rangeOrder rt typ index spec) s2")
    case None
    then show ?thesis using st by (simp add: specifyParams_None_iff)
  next
    case (Some s3)
    then show ?thesis using st em by (auto simp: specifyParams_Some_iff)
  qed
  show ?thesis
    by (cases "EqualFold rt (Type spec) (Type p)"; cases "Type spec = ''*''";
        cases "EqualFold rt (Subtype spec) (Subtype p)"; cases "Subtype spec = ''*''";
        cases "\<exists>(key, val) \<in> set (Params spec). val \<noteq> ''*'' \<and> \<not> EqualFold rt val (lookupParam (Params p) key)";
        cases "Params spec = []")
       (simp_all add: specify_def p params del: split_paired_Ex split_paired_All)
qed

lemma rangesOverParams_exampleRuntime: "rangesOverParams exampleRuntime"
  by (simp add: rangesOverParams_def exampleRuntime_def)

subsection \<open>The wildcard header and single segments\<close>

lemma f64_le_not_gt: "f64_le a b \<Longrightarrow> \<not> f64_gt a b"
  by (simp add: f64_le_def)

lemma parseAccept_star:
  "parseAccept rt ''*/*'' =
     Some (Inr [\<lparr>Type = ''*'', Subtype = ''*'', Params = [], Q = Fin 1, I = 0, S = 0\<rparr>])"
proof -
  have "splitBounded ''*/*'' [] = Some [''*/*'']" by code_simp
  then have split: "splitMediaTypes ''*/*'' = Some [''*/*'']"
    by (simp only: splitMediaTypes_def splitLoop_eq)
  have trim: "TrimSpace ''*/*'' = ''*/*''" "TrimSpace ''*'' = ''*''" by code_simp+
  have parts: "Split ''*/*'' CHR '';'' = [''*/*'']" by code_simp
  have halves: "SplitN2 ''*/*'' CHR ''/'' = [''*'', ''*'']" by code_simp
  have "parseMediaType rt ''*/*'' 0 =
      Inr (Some \<lparr>Type = ''*'', Subtype = ''*'', Params = [], Q = Fin 1, I = 0, S = 0\<rparr>)"
    by (simp add: parseMediaType_def parts halves trim)
  then show ?thesis by (simp add: parseAccept_def split trim)
qed

lemma SliceStable_single: "SliceStable lt [x] = [x]"
  by (simp add: SliceStable_def)

lemma parseAcceptLoop_append:
  assumes "parseAcceptLoop rt xs i = Inr a" and "parseAcceptLoop rt ys (i + length xs) = Inr b"
  shows "parseAcceptLoop rt (xs @ ys) i = Inr (a @ b)"
  using assms
proof (induction xs arbitrary: i a)
  case Nil
  then show ?case by simp
next
  case (Cons x xs)
  obtain r where r: "parseMediaType rt (TrimSpace x) i = Inr r" using parseMediaType_Inr by blast
  obtain a' where a': "parseAcceptLoop rt xs (Suc i) = Inr a'" using parseAcceptLoop_Inr by blast
  from Cons.prems(2) have "parseAcceptLoop rt ys (Suc i + length xs) = Inr b" by simp
  from Cons.IH [OF a' this] have "parseAcceptLoop rt (xs @ ys) (Suc i) = Inr (a' @ b)" .
  with r a' Cons.prems(1) show ?case by (cases r) auto
qed

subsection \<open>Independence from the order of a range loop\<close>

lemma parseParams_runtime:
  assumes "ParseFloat rt' = ParseFloat rt"
  shows "parseParams rt' parts m = parseParams rt parts m"
  using assms
  by (induction rt parts m rule: parseParams.induct)
     (auto simp: Let_def split: list.splits option.splits)

lemma parseMediaType_runtime:
  assumes "ParseFloat rt' = ParseFloat rt"
  shows "parseMediaType rt' str i = parseMediaType rt str i"
  by (simp add: parseMediaType_def parseParams_runtime [OF assms] split: list.splits)

lemma parseAcceptLoop_runtime:
  assumes "ParseFloat rt' = ParseFloat rt"
  shows "parseAcceptLoop rt' segs i = parseAcceptLoop rt segs i"
  by (induction segs arbitrary: i) (simp_all add: parseMediaType_runtime [OF assms] split: sum.splits)

lemma specify_runtime:
  assumes "rangesOverParams rt" and "rangesOverParams rt'"
    and ef: "EqualFold rt' = EqualFold rt" and pf: "ParseFloat rt' = ParseFloat rt"
  shows "specify rt' typ spec index = specify rt typ spec index"
proof -
  obtain res where res: "parseMediaType rt typ 0 = Inr res" using parseMediaType_Inr by blast
  then have res': "parseMediaType rt' typ 0 = Inr res" by (simp add: parseMediaType_runtime [OF pf])
  show ?thesis
  proof (cases res)
    case None
    with res res' show ?thesis by (simp add: specify_def)
  next
    case (Some p)
    with res res' have "parseMediaType rt typ 0 = Inr (Some p)" "parseMediaType rt' typ 0 = Inr (Some p)"
      by simp_all
    then show ?thesis
      by (simp only: specify_parsed [OF assms(1)] specify_parsed [OF assms(2)] ef)
  qed
qed

lemma priorityLoop_runtime:
  assumes "rangesOverParams rt" and "rangesOverParams rt'"
    and "EqualFold rt' = EqualFold rt" and "ParseFloat rt' = ParseFloat rt"
  shows "priorityLoop rt' typ index accepted priority = priorityLoop rt typ index accepted priority"
  by (induction accepted arbitrary: priority) (simp_all add: specify_runtime [OF assms] split: sum.splits)

lemma collectPriorities_runtime:
  assumes "rangesOverParams rt" and "rangesOverParams rt'"
    and "EqualFold rt' = EqualFold rt" and "ParseFloat rt' = ParseFloat rt"
  shows "collectPriorities rt' accepts provided i = collectPriorities rt accepts provided i"
  by (induction provided arbitrary: i)
     (simp_all add: getMediaTypePriority_def priorityLoop_runtime [OF assms] split: sum.splits)

lemma rangesOverParams_reversingRuntime: "rangesOverParams reversingRuntime"
  by (simp add: rangesOverParams_def reversingRuntime_def)

section \<open>The claims\<close>

subsection \<open>Claim C1\<close>

text \<open>
  Claim C1 says that the segmenter returns on every header. It does not: at the first comma
  that has an odd number of double quotes before it, the loop repeats the same iteration for
  ever. The header \<^verbatim>\<open>a/b;p="x,y"\<close>, whose quotes balance, is such an input: neither
  \<^verbatim>\<open>splitMediaTypes\<close> nor \<^verbatim>\<open>PreferredMediaTypes\<close> returns on it.
\<close>

theorem splitMediaTypes_diverges_on_quoted_comma:
  "splitMediaTypes (''a/b;p='' @ [CHR 0x22] @ ''x,y'' @ [CHR 0x22]) = None
   \<and> PreferredMediaTypes exampleRuntime (''a/b;p='' @ [CHR 0x22] @ ''x,y'' @ [CHR 0x22]) [] = None"
proof -
  have "splitBounded (''a/b;p='' @ [CHR 0x22] @ ''x,y'' @ [CHR 0x22]) [] = None"
    by code_simp
  then have "splitMediaTypes (''a/b;p='' @ [CHR 0x22] @ ''x,y'' @ [CHR 0x22]) = None"
    by (simp only: splitMediaTypes_def splitLoop_eq)
  then show ?thesis
    by (simp add: PreferredMediaTypes_def parseAccept_def)
qed

subsection \<open>Claim C2\<close>

text \<open>
  Claim C2 says that in the candidates branch the best matches are sorted by the ordering
  rule before the candidates are emitted. The code sorts the parsed specs, before matching,
  and never the matches: the candidates come out in the order they were given
  (\<open>preferredOf_candidates\<close>). Here the client weights \<^verbatim>\<open>application/json\<close> 0.8 and \<^verbatim>\<open>text/html\<close>
  0.2, the best matches carry these qualities, and \<^verbatim>\<open>text/html\<close> is still returned first.
\<close>

theorem candidates_come_out_in_given_order:
  "PreferredMediaTypes exampleRuntime ''text/html;q=0.2, application/json;q=0.8''
       [''text/html'', ''application/json'']
     = Some (Inr [''text/html'', ''application/json''])
   \<and> parseAccept exampleRuntime ''text/html;q=0.2, application/json;q=0.8'' =
     Some (Inr [\<lparr>Type = ''text'', Subtype = ''html'', Params = [], Q = Fin (1 / 5), I = 0, S = 0\<rparr>,
                \<lparr>Type = ''application'', Subtype = ''json'', Params = [], Q = Fin (4 / 5), I = 1, S = 0\<rparr>])
   \<and> getMediaTypePriority exampleRuntime ''text/html''
       (SliceStable lessAccepts
          [\<lparr>Type = ''text'', Subtype = ''html'', Params = [], Q = Fin (1 / 5), I = 0, S = 0\<rparr>,
           \<lparr>Type = ''application'', Subtype = ''json'', Params = [], Q = Fin (4 / 5), I = 1, S = 0\<rparr>]) 0
     = Inr (Some \<lparr>Type = ''text'', Subtype = ''html'', Params = [], Q = Fin (1 / 5), I = 0, S = 6\<rparr>)
   \<and> getMediaTypePriority exampleRuntime ''application/json''
       (SliceStable lessAccepts
          [\<lparr>Type = ''text'', Subtype = ''html'', Params = [], Q = Fin (1 / 5), I = 0, S = 0\<rparr>,
           \<lparr>Type = ''application'', Subtype = ''json'', Params = [], Q = Fin (4 / 5), I = 1, S = 0\<rparr>]) 1
     = Inr (Some \<lparr>Type = ''application'', Subtype = ''json'', Params = [], Q = Fin (4 / 5), I = 1, S = 6\<rparr>)
   \<and> prefers \<lparr>Type = ''application'', Subtype = ''json'', Params = [], Q = Fin (4 / 5), I = 1, S = 6\<rparr>
              \<lparr>Type = ''text'', Subtype = ''html'', Params = [], Q = Fin (1 / 5), I = 0, S = 6\<rparr>"
  by code_simp

subsection \<open>Claim C3\<close>

text \<open>
  Claim C3: the best match that \<^verbatim>\<open>getMediaTypePriority\<close> returns for a candidate is one of the
  matching specs; no matching spec has a higher specificity score, and none with the same
  score has a higher quality. It returns nil exactly when no spec matches, and a candidate
  that no spec matches is absent from the result of \<^verbatim>\<open>PreferredMediaTypes\<close>.
\<close>

theorem best_match_is_most_specific:
  "(getMediaTypePriority rt typ accepted index = Inr None
      \<longleftrightarrow> (\<forall>a \<in> set accepted. specify rt typ a index = Inr None))
   \<and> (\<forall>r. getMediaTypePriority rt typ accepted index = Inr (Some r) \<longrightarrow>
         (\<exists>a \<in> set accepted. specify rt typ a index = Inr (Some r))
         \<and> (\<forall>a \<in> set accepted. \<forall>m. specify rt typ a index = Inr (Some m) \<longrightarrow>
               S m \<le> S r \<and> (S m = S r \<longrightarrow> \<not> f64_gt (Q m) (Q r))))
   \<and> (\<forall>parsed out. parseAccept rt (if accept = [] then ''*/*'' else accept) = Some (Inr parsed)
         \<and> (\<forall>a \<in> set parsed. \<forall>k. specify rt typ a k = Inr None)
         \<and> PreferredMediaTypes rt accept provided = Some (Inr out) \<and> provided \<noteq> []
         \<longrightarrow> typ \<notin> set out)"
proof (intro conjI allI impI)
  show "getMediaTypePriority rt typ accepted index = Inr None
      \<longleftrightarrow> (\<forall>a \<in> set accepted. specify rt typ a index = Inr None)"
    by (simp add: getMediaTypePriority_def priorityLoop_None_iff)
next
  fix r assume r: "getMediaTypePriority rt typ accepted index = Inr (Some r)"
  then show "\<exists>a \<in> set accepted. specify rt typ a index = Inr (Some r)"
    using priorityLoop_source [of rt "typ" index accepted None r] by (simp add: getMediaTypePriority_def)
  have inv: "\<forall>a \<in> set accepted. \<forall>m. specify rt typ a index = Inr (Some m) \<longrightarrow> \<not> replaces (Some m) (Some r)"
    using priorityLoop_invariant [of rt "typ" index accepted None r "{}"] r
    by (simp add: getMediaTypePriority_def)
  show "\<forall>a \<in> set accepted. \<forall>m. specify rt typ a index = Inr (Some m) \<longrightarrow>
               S m \<le> S r \<and> (S m = S r \<longrightarrow> \<not> f64_gt (Q m) (Q r))"
  proof (intro ballI allI impI)
    fix a m assume "a \<in> set accepted" "specify rt typ a index = Inr (Some m)"
    with inv have "\<not> replaces (Some m) (Some r)" by blast
    then show "S m \<le> S r \<and> (S m = S r \<longrightarrow> \<not> f64_gt (Q m) (Q r))"
      by (auto simp: replaces_def)
  qed
next
  fix parsed out
  assume a: "parseAccept rt (if accept = [] then ''*/*'' else accept) = Some (Inr parsed)
         \<and> (\<forall>a \<in> set parsed. \<forall>k. specify rt typ a k = Inr None)
         \<and> PreferredMediaTypes rt accept provided = Some (Inr out) \<and> provided \<noteq> []"
  let ?accepts = "SliceStable lessAccepts parsed"
  from a have parse: "parseAccept rt (if accept = [] then ''*/*'' else accept) = Some (Inr parsed)"
    and ne: "provided \<noteq> []" and res: "PreferredMediaTypes rt accept provided = Some (Inr out)"
    by blast+
  have out: "out = map fst (filter (keeps rt ?accepts) (zip provided [0 ..< length provided]))"
    using res unfolding PreferredMediaTypes_parsed [OF parse] preferredOf_candidates [OF ne] by simp
  have "getMediaTypePriority rt typ ?accepts k = Inr None" for k
    using a by (simp add: getMediaTypePriority_def priorityLoop_None_iff set_SliceStable)
  then have "\<not> keeps rt ?accepts (typ, k)" for k
    by (simp add: keeps_def)
  then show "typ \<notin> set out" unfolding out by auto
qed

theorem best_match_is_most_specific_witness:
  "getMediaTypePriority exampleRuntime ''text/html''
      [\<lparr>Type = ''*'', Subtype = ''*'', Params = [], Q = Fin 1, I = 0, S = 0\<rparr>,
       \<lparr>Type = ''text'', Subtype = ''html'', Params = [], Q = Fin (1 / 2), I = 1, S = 0\<rparr>,
       \<lparr>Type = ''text'', Subtype = ''html'', Params = [], Q = Fin (4 / 5), I = 2, S = 0\<rparr>] 7
     = Inr (Some \<lparr>Type = ''text'', Subtype = ''html'', Params = [], Q = Fin (4 / 5), I = 7, S = 6\<rparr>)
   \<and> specify exampleRuntime ''text/html'' \<lparr>Type = ''*'', Subtype = ''*'', Params = [], Q = Fin 1, I = 0, S = 0\<rparr> 7
     = Inr (Some \<lparr>Type = ''*'', Subtype = ''*'', Params = [], Q = Fin 1, I = 7, S = 0\<rparr>)
   \<and> S \<lparr>Type = ''*'', Subtype = ''*'', Params = [], Q = Fin 1, I = 7, S = 0\<rparr>
       \<le> S \<lparr>Type = ''text'', Subtype = ''html'', Params = [], Q = Fin (4 / 5), I = 7, S = 6\<rparr>
   \<and> getMediaTypePriority exampleRuntime ''image/png''
      [\<lparr>Type = ''text'', Subtype = ''html'', Params = [], Q = Fin 1, I = 0, S = 0\<rparr>] 0 = Inr None
   \<and> PreferredMediaTypes exampleRuntime ''text/html'' [''image/png'', ''text/html''] = Some (Inr [''text/html''])
   \<and> ''image/png'' \<notin> set [''text/html'']"
proof -
  let ?any = "\<lparr>Type = ''*'', Subtype = ''*'', Params = [], Q = Fin 1, I = 0, S = 0\<rparr>"
  let ?half = "\<lparr>Type = ''text'', Subtype = ''html'', Params = [], Q = Fin (1 / 2), I = 1, S = 0\<rparr>"
  let ?most = "\<lparr>Type = ''text'', Subtype = ''html'', Params = [], Q = Fin (4 / 5), I = 2, S = 0\<rparr>"
  let ?best = "\<lparr>Type = ''text'', Subtype = ''html'', Params = [], Q = Fin (4 / 5), I = 7, S = 6\<rparr>"
  let ?weak = "\<lparr>Type = ''*'', Subtype = ''*'', Params = [], Q = Fin 1, I = 7, S = 0\<rparr>"
  let ?html = "\<lparr>Type = ''text'', Subtype = ''html'', Params = [], Q = Fin 1, I = 0, S = 0\<rparr>"
  note inst = best_match_is_most_specific [of exampleRuntime "''text/html''" "[?any, ?half, ?most]" 7]
  have best: "getMediaTypePriority exampleRuntime ''text/html'' [?any, ?half, ?most] 7 = Inr (Some ?best)"
    by code_simp
  have weak: "specify exampleRuntime ''text/html'' ?any 7 = Inr (Some ?weak)"
    by code_simp
  from inst best have "\<forall>a \<in> set [?any, ?half, ?most]. \<forall>m. specify exampleRuntime ''text/html'' a 7 = Inr (Some m) \<longrightarrow> S m \<le> S ?best"
    by blast
  with weak have le: "S ?weak \<le> S ?best" by simp
  have p: "parseAccept exampleRuntime (if ''text/html'' = [] then ''*/*'' else ''text/html'') = Some (Inr [?html])"
    by code_simp
  have png: "parseMediaType exampleRuntime ''image/png'' 0
      = Inr (Some \<lparr>Type = ''image'', Subtype = ''png'', Params = [], Q = Fin 1, I = 0, S = 0\<rparr>)"
    by code_simp
  have ne: "\<not> EqualFold exampleRuntime ''text'' ''image''" by code_simp
  have none: "\<forall>a \<in> set [?html]. \<forall>k. specify exampleRuntime ''image/png'' a k = Inr None"
    by (simp add: specify_def png ne)
  have out: "PreferredMediaTypes exampleRuntime ''text/html'' [''image/png'', ''text/html''] = Some (Inr [''text/html''])"
    by code_simp
  from best_match_is_most_specific [of exampleRuntime "''image/png''" "[?html]" 0 "''text/html''" "[''image/png'', ''text/html'']"]
    p none out
  have dropped: "''image/png'' \<notin> set [''text/html'']" by blast
  from best_match_is_most_specific [of exampleRuntime "''image/png''" "[?html]" 0] none
  have nil: "getMediaTypePriority exampleRuntime ''image/png'' [?html] 0 = Inr None" by blast
  from best weak le nil out dropped show ?thesis by blast
qed

subsection \<open>Claim C4\<close>

text \<open>
  Claim C4, amended: in the no-candidates branch, for a header none of whose q values parses
  to NaN, the call returns the type/subtype strings of the specs with quality above 0, in the
  order of one stable sort: quality descending, then specificity score descending, then
  header position ascending; specs of equal quality and score keep their header order.
\<close>

theorem no_candidates_order:
  assumes parse: "parseAccept rt (if accept = [] then ''*/*'' else accept) = Some (Inr parsed)"
    and nan: "\<forall>m \<in> set parsed. Q m \<noteq> NaN"
  shows "\<exists>ms. PreferredMediaTypes rt accept [] = Some (Inr (map getFullType ms))
     \<and> ms = filter isQuality (SliceStable lessAccepts parsed)
     \<and> mset ms = mset (filter isQuality parsed)
     \<and> sorted_wrt prefers ms
     \<and> (\<forall>q s. filter (\<lambda>m. Q m = q \<and> S m = s) ms = filter (\<lambda>m. Q m = q \<and> S m = s) (filter isQuality parsed))"
proof -
  let ?ms = "filter isQuality (SliceStable lessAccepts parsed)"
  have asc: "sorted_wrt (<) (map I parsed)" using parse by (rule parseAccept_fields)
  have out: "PreferredMediaTypes rt accept [] = Some (Inr (map getFullType ?ms))"
    by (simp add: PreferredMediaTypes_parsed [OF parse] preferredOf_def)
  have perm: "mset ?ms = mset (filter isQuality parsed)"
    by (simp add: mset_SliceStable)
  have sorted: "sorted_wrt prefers ?ms"
    using sorted_accepts [OF asc nan] by (rule sorted_wrt_filter)
  have stable: "filter (\<lambda>m. Q m = q \<and> S m = s) ?ms = filter (\<lambda>m. Q m = q \<and> S m = s) (filter isQuality parsed)" for q s
  proof -
    have "filter (\<lambda>m. Q m = q \<and> S m = s) ?ms = filter isQuality (filter (\<lambda>m. Q m = q \<and> S m = s) (SliceStable lessAccepts parsed))"
      by (simp add: conj_commute)
    also have "\<dots> = filter isQuality (filter (\<lambda>m. Q m = q \<and> S m = s) parsed)"
      by (simp only: stable_accepts [OF asc nan])
    also have "\<dots> = filter (\<lambda>m. Q m = q \<and> S m = s) (filter isQuality parsed)"
      by (simp add: conj_commute)
    finally show ?thesis .
  qed
  from out perm sorted stable show ?thesis by blast
qed

theorem no_candidates_order_witness:
  "parseAccept exampleRuntime ''text/html, application/*;q=0.2, image/jpeg;q=0.8'' =
     Some (Inr [\<lparr>Type = ''text'', Subtype = ''html'', Params = [], Q = Fin 1, I = 0, S = 0\<rparr>,
                \<lparr>Type = ''application'', Subtype = ''*'', Params = [], Q = Fin (1 / 5), I = 1, S = 0\<rparr>,
                \<lparr>Type = ''image'', Subtype = ''jpeg'', Params = [], Q = Fin (4 / 5), I = 2, S = 0\<rparr>])
   \<and> PreferredMediaTypes exampleRuntime ''text/html, application/*;q=0.2, image/jpeg;q=0.8'' [] =
     Some (Inr [''text/html'', ''image/jpeg'', ''application/*''])"
proof -
  let ?parsed = "[\<lparr>Type = ''text'', Subtype = ''html'', Params = [], Q = Fin 1, I = 0, S = 0\<rparr>,
                \<lparr>Type = ''application'', Subtype = ''*'', Params = [], Q = Fin (1 / 5), I = 1, S = 0\<rparr>,
                \<lparr>Type = ''image'', Subtype = ''jpeg'', Params = [], Q = Fin (4 / 5), I = 2, S = 0\<rparr>]"
  have p: "parseAccept exampleRuntime (if ''text/html, application/*;q=0.2, image/jpeg;q=0.8'' = [] then ''*/*'' else ''text/html, application/*;q=0.2, image/jpeg;q=0.8'') = Some (Inr ?parsed)"
    by code_simp
  have n: "\<forall>m \<in> set ?parsed. Q m \<noteq> NaN" by simp
  have e: "map getFullType (filter isQuality (SliceStable lessAccepts ?parsed)) = [''text/html'', ''image/jpeg'', ''application/*'']"
    by code_simp
  from no_candidates_order [OF p n] e p show ?thesis by auto
qed

text \<open>
  Claim C4 as stated, for every header, fails: \<^verbatim>\<open>strconv.ParseFloat\<close> accepts \<^verbatim>\<open>NaN\<close>, no
  comparison with NaN holds, so the spec with q=NaN is never moved and keeps the spec with
  q=0.9 behind the spec with q=0.5.
\<close>

theorem no_candidates_order_fails_with_NaN:
  "parseAccept exampleRuntime ''a/b;q=0.5, c/d;q=NaN, e/f;q=0.9'' =
     Some (Inr [\<lparr>Type = ''a'', Subtype = ''b'', Params = [], Q = Fin (1 / 2), I = 0, S = 0\<rparr>,
                \<lparr>Type = ''c'', Subtype = ''d'', Params = [], Q = NaN, I = 1, S = 0\<rparr>,
                \<lparr>Type = ''e'', Subtype = ''f'', Params = [], Q = Fin (9 / 10), I = 2, S = 0\<rparr>])
   \<and> PreferredMediaTypes exampleRuntime ''a/b;q=0.5, c/d;q=NaN, e/f;q=0.9'' [] = Some (Inr [''a/b'', ''e/f''])
   \<and> \<not> sorted_wrt prefers
        [\<lparr>Type = ''a'', Subtype = ''b'', Params = [], Q = Fin (1 / 2), I = 0, S = 0\<rparr>,
         \<lparr>Type = ''e'', Subtype = ''f'', Params = [], Q = Fin (9 / 10), I = 2, S = 0\<rparr>]"
  by code_simp

subsection \<open>Claim C5\<close>

text \<open>
  Claim C5: \<^verbatim>\<open>specify\<close> returns nil exactly when the candidate has no \<^verbatim>\<open>type/subtype\<close>, or the
  types differ under case folding and the spec's type is not \<^verbatim>\<open>*\<close>, or likewise the subtypes,
  or a parameter of the spec is neither \<^verbatim>\<open>*\<close> nor equal under case folding to the candidate's
  value for its key. Otherwise the score is 4 for equal types, OR 2 for equal subtypes, OR 1
  when the spec has a parameter; the other fields are the spec's, with \<^verbatim>\<open>I\<close> the candidate's
  index. It never panics, and two candidates that agree on type, subtype and the values of the
  spec's keys get the same answer.
\<close>

theorem specify_outcome:
  assumes "rangesOverParams rt"
  shows "(specify rt typ spec index = Inr None \<longleftrightarrow>
            parseMediaType rt typ 0 = Inr None
            \<or> (\<exists>p. parseMediaType rt typ 0 = Inr (Some p)
                 \<and> ((\<not> EqualFold rt (Type spec) (Type p) \<and> Type spec \<noteq> ''*'')
                   \<or> (\<not> EqualFold rt (Subtype spec) (Subtype p) \<and> Subtype spec \<noteq> ''*'')
                   \<or> (\<exists>(key, val) \<in> set (Params spec).
                         val \<noteq> ''*'' \<and> \<not> EqualFold rt val (lookupParam (Params p) key)))))
     \<and> (\<forall>r. specify rt typ spec index = Inr (Some r) \<longrightarrow>
           (\<exists>p. parseMediaType rt typ 0 = Inr (Some p)
              \<and> r = \<lparr>Type = Type spec, Subtype = Subtype spec, Params = Params spec, Q = Q spec, I = index,
                     S = (if EqualFold rt (Type spec) (Type p) then 4 else 0)
                         OR (if EqualFold rt (Subtype spec) (Subtype p) then 2 else 0)
                         OR (if Params spec \<noteq> [] then 1 else 0)\<rparr>))
     \<and> (\<forall>e. specify rt typ spec index \<noteq> Inl e)
     \<and> (\<forall>typ' p p'. parseMediaType rt typ 0 = Inr (Some p) \<and> parseMediaType rt typ' 0 = Inr (Some p')
           \<and> Type p' = Type p \<and> Subtype p' = Subtype p
           \<and> (\<forall>(key, val) \<in> set (Params spec). lookupParam (Params p') key = lookupParam (Params p) key)
           \<longrightarrow> specify rt typ' spec index = specify rt typ spec index)"
proof (intro conjI allI impI)
  obtain res where res: "parseMediaType rt typ 0 = Inr res" using parseMediaType_Inr by blast
  show "specify rt typ spec index = Inr None \<longleftrightarrow>
            parseMediaType rt typ 0 = Inr None
            \<or> (\<exists>p. parseMediaType rt typ 0 = Inr (Some p)
                 \<and> ((\<not> EqualFold rt (Type spec) (Type p) \<and> Type spec \<noteq> ''*'')
                   \<or> (\<not> EqualFold rt (Subtype spec) (Subtype p) \<and> Subtype spec \<noteq> ''*'')
                   \<or> (\<exists>(key, val) \<in> set (Params spec).
                         val \<noteq> ''*'' \<and> \<not> EqualFold rt val (lookupParam (Params p) key))))"
  proof (cases res)
    case None
    with res show ?thesis by (simp add: specify_def)
  next
    case (Some p)
    with res have p: "parseMediaType rt typ 0 = Inr (Some p)" by simp
    show ?thesis unfolding specify_parsed [OF assms p] p by (simp del: split_paired_Ex split_paired_All)
  qed
  show "specify rt typ spec index \<noteq> Inl e" for e
    using specify_Inr [of rt "typ" spec index] by auto
  show "\<exists>p. parseMediaType rt typ 0 = Inr (Some p)
              \<and> r = \<lparr>Type = Type spec, Subtype = Subtype spec, Params = Params spec, Q = Q spec, I = index,
                     S = (if EqualFold rt (Type spec) (Type p) then 4 else 0)
                         OR (if EqualFold rt (Subtype spec) (Subtype p) then 2 else 0)
                         OR (if Params spec \<noteq> [] then 1 else 0)\<rparr>"
    if r: "specify rt typ spec index = Inr (Some r)" for r
  proof (cases res)
    case None
    with res r show ?thesis by (simp add: specify_def)
  next
    case (Some p)
    with res have p: "parseMediaType rt typ 0 = Inr (Some p)" by simp
    from r show ?thesis unfolding specify_parsed [OF assms p] p
      by (simp del: split_paired_Ex split_paired_All split: if_splits)
  qed
next
  fix typ' p p'
  assume a: "parseMediaType rt typ 0 = Inr (Some p) \<and> parseMediaType rt typ' 0 = Inr (Some p')
           \<and> Type p' = Type p \<and> Subtype p' = Subtype p
           \<and> (\<forall>(key, val) \<in> set (Params spec). lookupParam (Params p') key = lookupParam (Params p) key)"
  then have p: "parseMediaType rt typ 0 = Inr (Some p)" and p': "parseMediaType rt typ' 0 = Inr (Some p')"
    and t: "Type p' = Type p" "Subtype p' = Subtype p"
    and l: "\<forall>(key, val) \<in> set (Params spec). lookupParam (Params p') key = lookupParam (Params p) key"
    by blast+
  have "(\<exists>(key, val) \<in> set (Params spec). val \<noteq> ''*'' \<and> \<not> EqualFold rt val (lookupParam (Params p') key))
      \<longleftrightarrow> (\<exists>(key, val) \<in> set (Params spec). val \<noteq> ''*'' \<and> \<not> EqualFold rt val (lookupParam (Params p) key))"
  proof (rule bex_cong [OF refl])
    fix e assume "e \<in> set (Params spec)"
    with l show "(case e of (key, val) \<Rightarrow> val \<noteq> ''*'' \<and> \<not> EqualFold rt val (lookupParam (Params p') key))
        = (case e of (key, val) \<Rightarrow> val \<noteq> ''*'' \<and> \<not> EqualFold rt val (lookupParam (Params p) key))"
      by (cases e) auto
  qed
  then show "specify rt typ' spec index = specify rt typ spec index"
    unfolding specify_parsed [OF assms p] specify_parsed [OF assms p'] t by (simp only:)
qed

theorem specify_outcome_witness:
  "rangesOverParams exampleRuntime
   \<and> specify exampleRuntime ''text/html;level=1''
        \<lparr>Type = ''text'', Subtype = ''html'', Params = [(''level'', ''1'')], Q = Fin (1 / 2), I = 0, S = 0\<rparr> 3
      = Inr (Some \<lparr>Type = ''text'', Subtype = ''html'', Params = [(''level'', ''1'')], Q = Fin (1 / 2), I = 3, S = 7\<rparr>)
   \<and> specify exampleRuntime ''text/html;level=1;charset=utf-8''
        \<lparr>Type = ''text'', Subtype = ''html'', Params = [(''level'', ''1'')], Q = Fin (1 / 2), I = 0, S = 0\<rparr> 3
      = Inr (Some \<lparr>Type = ''text'', Subtype = ''html'', Params = [(''level'', ''1'')], Q = Fin (1 / 2), I = 3, S = 7\<rparr>)
   \<and> specify exampleRuntime ''text/html;level=2''
        \<lparr>Type = ''text'', Subtype = ''html'', Params = [(''level'', ''1'')], Q = Fin (1 / 2), I = 0, S = 0\<rparr> 3
      = Inr None
   \<and> specify exampleRuntime ''text''
        \<lparr>Type = ''text'', Subtype = ''html'', Params = [(''level'', ''1'')], Q = Fin (1 / 2), I = 0, S = 0\<rparr> 3
      = Inr None"
proof -
  let ?spec = "\<lparr>Type = ''text'', Subtype = ''html'', Params = [(''level'', ''1'')], Q = Fin (1 / 2), I = 0, S = 0\<rparr>"
  let ?p = "\<lparr>Type = ''text'', Subtype = ''html'', Params = [(''level'', ''1'')], Q = Fin 1, I = 0, S = 0\<rparr>"
  let ?p' = "\<lparr>Type = ''text'', Subtype = ''html'', Params = [(''level'', ''1''), (''charset'', ''utf-8'')], Q = Fin 1, I = 0, S = 0\<rparr>"
  let ?p2 = "\<lparr>Type = ''text'', Subtype = ''html'', Params = [(''level'', ''2'')], Q = Fin 1, I = 0, S = 0\<rparr>"
  note r = rangesOverParams_exampleRuntime
  have p: "parseMediaType exampleRuntime ''text/html;level=1'' 0 = Inr (Some ?p)" by code_simp
  have p': "parseMediaType exampleRuntime ''text/html;level=1;charset=utf-8'' 0 = Inr (Some ?p')" by code_simp
  have p2: "parseMediaType exampleRuntime ''text/html;level=2'' 0 = Inr (Some ?p2)" by code_simp
  have p3: "parseMediaType exampleRuntime ''text'' 0 = Inr None" by code_simp
  have full: "specify exampleRuntime ''text/html;level=1'' ?spec 3
      = Inr (Some \<lparr>Type = ''text'', Subtype = ''html'', Params = [(''level'', ''1'')], Q = Fin (1 / 2), I = 3, S = 7\<rparr>)"
    by code_simp
  have same: "lookupParam (Params ?p') ''level'' = lookupParam (Params ?p) ''level''" by code_simp
  have "specify exampleRuntime ''text/html;level=1;charset=utf-8'' ?spec 3 = specify exampleRuntime ''text/html;level=1'' ?spec 3"
  proof -
    have "parseMediaType exampleRuntime ''text/html;level=1'' 0 = Inr (Some ?p)
        \<and> parseMediaType exampleRuntime ''text/html;level=1;charset=utf-8'' 0 = Inr (Some ?p')
        \<and> Type ?p' = Type ?p \<and> Subtype ?p' = Subtype ?p
        \<and> (\<forall>(key, val) \<in> set (Params ?spec). lookupParam (Params ?p') key = lookupParam (Params ?p) key)"
      using p p' same by simp
    with specify_outcome [OF r, of "''text/html;level=1''" ?spec 3] show ?thesis by blast
  qed
  with full have extra: "specify exampleRuntime ''text/html;level=1;charset=utf-8'' ?spec 3
      = Inr (Some \<lparr>Type = ''text'', Subtype = ''html'', Params = [(''level'', ''1'')], Q = Fin (1 / 2), I = 3, S = 7\<rparr>)"
    by simp
  have miss: "\<not> EqualFold exampleRuntime ''1'' (lookupParam (Params ?p2) ''level'')" by code_simp
  have "\<exists>(key, val) \<in> set (Params ?spec). val \<noteq> ''*'' \<and> \<not> EqualFold exampleRuntime val (lookupParam (Params ?p2) key)"
    using miss by simp
  with specify_outcome [OF r, of "''text/html;level=2''" ?spec 3] p2
  have wrong: "specify exampleRuntime ''text/html;level=2'' ?spec 3 = Inr None" by blast
  from specify_outcome [OF r, of "''text''" ?spec 3] p3
  have bare: "specify exampleRuntime ''text'' ?spec 3 = Inr None" by blast
  from r full extra wrong bare show ?thesis by blast
qed

subsection \<open>Claim C6\<close>

text \<open>
  Claim C6: a quality of 0 or less keeps an entry out of the output, in both branches. With
  no candidates the emitted specs are the parsed specs that pass \<^verbatim>\<open>isQuality\<close>, and none of them
  has quality at most 0; with candidates, a candidate whose best match has quality at most 0,
  wherever it stands in \<^verbatim>\<open>provided\<close>, is not among the returned strings.
\<close>

theorem rejected_quality_is_excluded:
  assumes parse: "parseAccept rt (if accept = [] then ''*/*'' else accept) = Some (Inr parsed)"
  shows "(\<exists>ms. PreferredMediaTypes rt accept [] = Some (Inr (map getFullType ms))
            \<and> mset ms = mset (filter isQuality parsed)
            \<and> (\<forall>m \<in> set parsed. f64_le (Q m) (Fin 0) \<longrightarrow> m \<notin> set ms))
     \<and> (provided \<noteq> [] \<longrightarrow>
           (\<exists>out. PreferredMediaTypes rt accept provided = Some (Inr out)
              \<and> (\<forall>c. (\<forall>k < length provided. provided ! k = c \<longrightarrow>
                         (\<exists>p. getMediaTypePriority rt c (SliceStable lessAccepts parsed) k = Inr (Some p)
                            \<and> f64_le (Q p) (Fin 0)))
                      \<longrightarrow> c \<notin> set out)))"
proof (intro conjI impI)
  let ?ms = "filter isQuality (SliceStable lessAccepts parsed)"
  have "PreferredMediaTypes rt accept [] = Some (Inr (map getFullType ?ms))"
    by (simp add: PreferredMediaTypes_parsed [OF parse] preferredOf_def)
  moreover have "mset ?ms = mset (filter isQuality parsed)"
    by (simp add: mset_SliceStable)
  moreover have "\<forall>m \<in> set parsed. f64_le (Q m) (Fin 0) \<longrightarrow> m \<notin> set ?ms"
    by (auto simp: isQuality_def dest: f64_le_not_gt)
  ultimately show "\<exists>ms. PreferredMediaTypes rt accept [] = Some (Inr (map getFullType ms))
            \<and> mset ms = mset (filter isQuality parsed)
            \<and> (\<forall>m \<in> set parsed. f64_le (Q m) (Fin 0) \<longrightarrow> m \<notin> set ms)"
    by blast
next
  assume ne: "provided \<noteq> []"
  let ?accepts = "SliceStable lessAccepts parsed"
  let ?out = "map fst (filter (keeps rt ?accepts) (zip provided [0 ..< length provided]))"
  have out: "PreferredMediaTypes rt accept provided = Some (Inr ?out)"
    by (simp add: PreferredMediaTypes_parsed [OF parse] preferredOf_candidates [OF ne])
  have "c \<notin> set ?out"
    if rej: "\<forall>k < length provided. provided ! k = c \<longrightarrow>
               (\<exists>p. getMediaTypePriority rt c ?accepts k = Inr (Some p) \<and> f64_le (Q p) (Fin 0))" for c
  proof
    assume "c \<in> set ?out"
    then obtain k where in_zip: "(c, k) \<in> set (zip provided [0 ..< length provided])" and kept: "keeps rt ?accepts (c, k)"
      by auto
    from in_zip have "k < length provided" "provided ! k = c"
      by (auto simp: set_zip)
    with rej obtain p where "getMediaTypePriority rt c ?accepts k = Inr (Some p)" "f64_le (Q p) (Fin 0)"
      by blast
    with kept show False by (simp add: keeps_def isQuality_def f64_le_def)
  qed
  with out show "\<exists>out. PreferredMediaTypes rt accept provided = Some (Inr out)
              \<and> (\<forall>c. (\<forall>k < length provided. provided ! k = c \<longrightarrow>
                         (\<exists>p. getMediaTypePriority rt c ?accepts k = Inr (Some p)
                            \<and> f64_le (Q p) (Fin 0)))
                      \<longrightarrow> c \<notin> set out)"
    by blast
qed

theorem rejected_quality_is_excluded_witness:
  "parseAccept exampleRuntime ''application/json;q=0'' =
     Some (Inr [\<lparr>Type = ''application'', Subtype = ''json'', Params = [], Q = Fin 0, I = 0, S = 0\<rparr>])
   \<and> f64_le (Fin 0) (Fin 0)
   \<and> (\<exists>out. PreferredMediaTypes exampleRuntime ''application/json;q=0'' [''application/json''] = Some (Inr out)
          \<and> ''application/json'' \<notin> set out)
   \<and> PreferredMediaTypes exampleRuntime ''application/json;q=0'' [''application/json''] = Some (Inr [])
   \<and> PreferredMediaTypes exampleRuntime ''application/json;q=0'' [] = Some (Inr [])"
proof -
  let ?parsed = "[\<lparr>Type = ''application'', Subtype = ''json'', Params = [], Q = Fin 0, I = 0, S = 0\<rparr>]"
  let ?best = "\<lparr>Type = ''application'', Subtype = ''json'', Params = [], Q = Fin 0, I = 0, S = 6\<rparr>"
  have p: "parseAccept exampleRuntime (if ''application/json;q=0'' = [] then ''*/*'' else ''application/json;q=0'') = Some (Inr ?parsed)"
    by code_simp
  have le: "f64_le (Fin 0) (Fin 0)" by code_simp
  have best: "getMediaTypePriority exampleRuntime ''application/json'' (SliceStable lessAccepts ?parsed) 0 = Inr (Some ?best)"
    by code_simp
  note inst = rejected_quality_is_excluded [OF p, of "[''application/json'']"]
  from inst obtain out where out: "PreferredMediaTypes exampleRuntime ''application/json;q=0'' [''application/json''] = Some (Inr out)"
    and ex: "\<forall>c. (\<forall>k < length [''application/json'']. [''application/json''] ! k = c \<longrightarrow>
                (\<exists>p. getMediaTypePriority exampleRuntime c (SliceStable lessAccepts ?parsed) k = Inr (Some p) \<and> f64_le (Q p) (Fin 0)))
          \<longrightarrow> c \<notin> set out"
    by blast
  have "\<forall>k < length [''application/json'']. [''application/json''] ! k = ''application/json'' \<longrightarrow>
                (\<exists>p. getMediaTypePriority exampleRuntime ''application/json'' (SliceStable lessAccepts ?parsed) k = Inr (Some p) \<and> f64_le (Q p) (Fin 0))"
    using best le by simp
  with ex have notin: "''application/json'' \<notin> set out" by blast
  have "PreferredMediaTypes exampleRuntime ''application/json;q=0'' [''application/json''] = Some (Inr [])"
    by code_simp
  moreover have "PreferredMediaTypes exampleRuntime ''application/json;q=0'' [] = Some (Inr [])"
    by code_simp
  ultimately show ?thesis using p le out notin by simp
qed

subsection \<open>Claim C7\<close>

text \<open>
  Claim C7: an empty accept string is replaced by \<^verbatim>\<open>*/*\<close>, which parses to one spec with
  quality 1; so for every candidate \<open>c\<close> whose base token contains a \<^verbatim>\<open>/\<close>, the call with the
  empty accept string and the one candidate returns the list holding \<open>c\<close>.
\<close>

theorem empty_accept_is_wildcard:
  assumes "rangesOverParams rt"
    and "Split c CHR '';'' = part0 # parts" and "CHR ''/'' \<in> set part0"
  shows "PreferredMediaTypes rt [] [c] = PreferredMediaTypes rt ''*/*'' [c]
     \<and> parseAccept rt ''*/*'' =
          Some (Inr [\<lparr>Type = ''*'', Subtype = ''*'', Params = [], Q = Fin 1, I = 0, S = 0\<rparr>])
     \<and> PreferredMediaTypes rt [] [c] = Some (Inr [c])"
proof -
  let ?star = "\<lparr>Type = ''*'', Subtype = ''*'', Params = [], Q = Fin 1, I = 0, S = 0\<rparr>"
  have same: "PreferredMediaTypes rt [] [c] = PreferredMediaTypes rt ''*/*'' [c]"
    by (simp add: PreferredMediaTypes_def)
  have "parseMediaType rt c 0 \<noteq> Inr None"
    using parseMediaType_None_iff [OF assms(2), of rt 0] assms(3) by simp
  then obtain p where p: "parseMediaType rt c 0 = Inr (Some p)"
    using parseMediaType_Inr [of rt c 0] by (cases "parseMediaType rt c 0") auto
  have "\<exists>r. specify rt c ?star 0 = Inr (Some r) \<and> Q r = Fin 1"
    unfolding specify_parsed [OF assms(1) p] by simp
  then obtain r where r: "specify rt c ?star 0 = Inr (Some r)" and q: "Q r = Fin 1" by blast
  have best: "getMediaTypePriority rt c [?star] 0 = Inr (Some r)"
    using r by (simp add: getMediaTypePriority_def replaces_def)
  have kept: "keeps rt [?star] (c, 0)"
    using best q by (simp add: keeps_def isQuality_def)
  have "preferredOf rt [?star] [c] = Inr [c]"
    using kept by (simp add: preferredOf_candidates SliceStable_single)
  then have "PreferredMediaTypes rt [] [c] = Some (Inr [c])"
    by (simp add: PreferredMediaTypes_parsed [of rt "[]", simplified, OF parseAccept_star])
  with same parseAccept_star show ?thesis by simp
qed

theorem empty_accept_is_wildcard_witness:
  "rangesOverParams exampleRuntime
   \<and> Split ''application/json'' CHR '';'' = [''application/json'']
   \<and> CHR ''/'' \<in> set ''application/json''
   \<and> PreferredMediaTypes exampleRuntime '''' [''application/json''] = Some (Inr [''application/json''])"
proof -
  have s: "Split ''application/json'' CHR '';'' = ''application/json'' # []" by code_simp
  have m: "CHR ''/'' \<in> set ''application/json''" by simp
  from empty_accept_is_wildcard [OF rangesOverParams_exampleRuntime s m]
  have "PreferredMediaTypes exampleRuntime '''' [''application/json''] = Some (Inr [''application/json''])"
    by blast
  with s m rangesOverParams_exampleRuntime show ?thesis by blast
qed

subsection \<open>Claim C8\<close>

text \<open>
  Claim C8: a segment whose base token (the part before the first \<^verbatim>\<open>;\<close>) has no \<^verbatim>\<open>/\<close> parses to
  nil; \<^verbatim>\<open>parseAccept\<close> leaves it out and parses the segments before and after it as it would
  without it, each with its own position in the header; and no call of \<^verbatim>\<open>PreferredMediaTypes\<close>
  ends in a panic.
\<close>

theorem malformed_segment_is_dropped:
  assumes "Split (TrimSpace seg) CHR '';'' = part0 # parts" and "CHR ''/'' \<notin> set part0"
  shows "parseMediaType rt (TrimSpace seg) i = Inr None
     \<and> (\<exists>before after. parseAcceptLoop rt pre i = Inr before
           \<and> parseAcceptLoop rt post (Suc (i + length pre)) = Inr after
           \<and> parseAcceptLoop rt (pre @ seg # post) i = Inr (before @ after))
     \<and> (\<forall>accept provided e. PreferredMediaTypes rt accept provided \<noteq> Some (Inl e))"
proof -
  have none: "parseMediaType rt (TrimSpace seg) j = Inr None" for j
    using parseMediaType_None_iff [OF assms(1)] assms(2) by simp
  obtain before where before: "parseAcceptLoop rt pre i = Inr before"
    using parseAcceptLoop_Inr by blast
  obtain after where after: "parseAcceptLoop rt post (Suc (i + length pre)) = Inr after"
    using parseAcceptLoop_Inr by blast
  have "parseAcceptLoop rt (seg # post) (i + length pre) = Inr after"
    using none after by simp
  with before have "parseAcceptLoop rt (pre @ seg # post) i = Inr (before @ after)"
    by (rule parseAcceptLoop_append)
  with none before after PreferredMediaTypes_no_panic show ?thesis by blast
qed

theorem malformed_segment_is_dropped_witness:
  "Split (TrimSpace '' garbage;q=0.9'') CHR '';'' = [''garbage'', ''q=0.9'']
   \<and> CHR ''/'' \<notin> set ''garbage''
   \<and> parseMediaType exampleRuntime (TrimSpace '' garbage;q=0.9'') 1 = Inr None
   \<and> parseAcceptLoop exampleRuntime [''text/html'', '' garbage;q=0.9'', '' a/b''] 0 =
       Inr [\<lparr>Type = ''text'', Subtype = ''html'', Params = [], Q = Fin 1, I = 0, S = 0\<rparr>,
            \<lparr>Type = ''a'', Subtype = ''b'', Params = [], Q = Fin 1, I = 2, S = 0\<rparr>]
   \<and> PreferredMediaTypes exampleRuntime ''text/html, garbage;q=0.9, a/b'' [] = Some (Inr [''text/html'', ''a/b''])"
proof -
  have s: "Split (TrimSpace '' garbage;q=0.9'') CHR '';'' = ''garbage'' # [''q=0.9'']" by code_simp
  have m: "CHR ''/'' \<notin> set ''garbage''" by simp
  note inst = malformed_segment_is_dropped [OF s m, of exampleRuntime 0 "[''text/html'']" "['' a/b'']"]
  have pre: "parseAcceptLoop exampleRuntime [''text/html''] 0
      = Inr [\<lparr>Type = ''text'', Subtype = ''html'', Params = [], Q = Fin 1, I = 0, S = 0\<rparr>]"
    by code_simp
  have post: "parseAcceptLoop exampleRuntime ['' a/b''] (Suc (0 + length [''text/html'']))
      = Inr [\<lparr>Type = ''a'', Subtype = ''b'', Params = [], Q = Fin 1, I = 2, S = 0\<rparr>]"
    by code_simp
  from inst pre post have loop: "parseAcceptLoop exampleRuntime ([''text/html''] @ '' garbage;q=0.9'' # ['' a/b'']) 0 =
       Inr ([\<lparr>Type = ''text'', Subtype = ''html'', Params = [], Q = Fin 1, I = 0, S = 0\<rparr>]
            @ [\<lparr>Type = ''a'', Subtype = ''b'', Params = [], Q = Fin 1, I = 2, S = 0\<rparr>])"
    by auto
  from malformed_segment_is_dropped [OF s m, of exampleRuntime 1]
  have none: "parseMediaType exampleRuntime (TrimSpace '' garbage;q=0.9'') 1 = Inr None" by blast
  have out: "PreferredMediaTypes exampleRuntime ''text/html, garbage;q=0.9, a/b'' [] = Some (Inr [''text/html'', ''a/b''])"
    by code_simp
  from s m none loop out show ?thesis by simp
qed

subsection \<open>Claim C9\<close>

text \<open>
  Claim C9: the result is a function of the two arguments alone. The model takes the accept
  string and the candidates as values, as the code only reads them (it assigns to neither, and
  the slice it sorts in place is the one \<^verbatim>\<open>parseAccept\<close> has just allocated). What can differ
  between two runs of the Go code on the same arguments is the order in which the runtime
  ranges over \<^verbatim>\<open>spec.Params\<close>; the theorem shows that two runtimes that visit every entry once,
  in whatever orders, and share the library functions return the same result.
\<close>

theorem result_independent_of_range_order:
  assumes "rangesOverParams rt" and "rangesOverParams rt'"
    and "EqualFold rt' = EqualFold rt" and "ParseFloat rt' = ParseFloat rt"
  shows "PreferredMediaTypes rt' accept provided = PreferredMediaTypes rt accept provided"
proof -
  have "parseAccept rt' a = parseAccept rt a" for a
    by (simp add: parseAccept_def parseAcceptLoop_runtime [OF assms(4)] split: option.splits)
  moreover have "preferredOf rt' parsed provided = preferredOf rt parsed provided" for parsed
    by (simp add: preferredOf_def Let_def collectPriorities_runtime [OF assms])
  ultimately show ?thesis by (simp add: PreferredMediaTypes_def Let_def split: option.splits sum.splits)
qed

theorem result_independent_of_range_order_witness:
  "rangesOverParams exampleRuntime \<and> rangesOverParams reversingRuntime
   \<and> EqualFold reversingRuntime = EqualFold exampleRuntime
   \<and> ParseFloat reversingRuntime = ParseFloat exampleRuntime
   \<and> rangeOrder reversingRuntime ''a/b'' 0
        \<lparr>Type = ''text'', Subtype = ''html'', Params = [(''level'', ''1''), (''v'', ''2'')], Q = Fin 1, I = 0, S = 0\<rparr>
      \<noteq> rangeOrder exampleRuntime ''a/b'' 0
        \<lparr>Type = ''text'', Subtype = ''html'', Params = [(''level'', ''1''), (''v'', ''2'')], Q = Fin 1, I = 0, S = 0\<rparr>
   \<and> PreferredMediaTypes exampleRuntime ''text/html;level=1;v=2, image/*;q=0.1''
        [''image/png'', ''text/html;v=2;level=1'', ''text/html;level=1'']
      = Some (Inr [''image/png'', ''text/html;v=2;level=1''])
   \<and> PreferredMediaTypes reversingRuntime ''text/html;level=1;v=2, image/*;q=0.1''
        [''image/png'', ''text/html;v=2;level=1'', ''text/html;level=1'']
      = Some (Inr [''image/png'', ''text/html;v=2;level=1''])"
proof -
  have ef: "EqualFold reversingRuntime = EqualFold exampleRuntime"
    and pf: "ParseFloat reversingRuntime = ParseFloat exampleRuntime"
    by (simp_all add: reversingRuntime_def exampleRuntime_def)
  have differ: "rangeOrder reversingRuntime ''a/b'' 0
        \<lparr>Type = ''text'', Subtype = ''html'', Params = [(''level'', ''1''), (''v'', ''2'')], Q = Fin 1, I = 0, S = 0\<rparr>
      \<noteq> rangeOrder exampleRuntime ''a/b'' 0
        \<lparr>Type = ''text'', Subtype = ''html'', Params = [(''level'', ''1''), (''v'', ''2'')], Q = Fin 1, I = 0, S = 0\<rparr>"
    by (simp add: reversingRuntime_def exampleRuntime_def)
  have run: "PreferredMediaTypes exampleRuntime ''text/html;level=1;v=2, image/*;q=0.1''
        [''image/png'', ''text/html;v=2;level=1'', ''text/html;level=1'']
      = Some (Inr [''image/png'', ''text/html;v=2;level=1''])"
    by code_simp
  from result_independent_of_range_order
    [OF rangesOverParams_exampleRuntime rangesOverParams_reversingRuntime ef pf,
     of "''text/html;level=1;v=2, image/*;q=0.1''" "[''image/png'', ''text/html;v=2;level=1'', ''text/html;level=1'']"]
    run
  have run': "PreferredMediaTypes reversingRuntime ''text/html;level=1;v=2, image/*;q=0.1''
        [''image/png'', ''text/html;v=2;level=1'', ''text/html;level=1'']
      = Some (Inr [''image/png'', ''text/html;v=2;level=1''])"
    by simp
  from rangesOverParams_exampleRuntime rangesOverParams_reversingRuntime ef pf differ run run'
  show ?thesis by blast
qed

subsection \<open>Claim C10\<close>

text \<open>
  Claim C10, amended: every parsed spec has specificity score 0, so in the no-candidates
  branch, for every header, the sort gives what it would give without its test on the
  score; and for a header none of whose q values parses to NaN, the emitted order is the one
  arrangement of the specs with quality above 0 by quality descending and then header
  position ascending.
\<close>

theorem no_candidates_ignores_specificity:
  assumes parse: "parseAccept rt (if accept = [] then ''*/*'' else accept) = Some (Inr parsed)"
  shows "(\<forall>m \<in> set parsed. S m = 0)
     \<and> SliceStable lessAccepts parsed = SliceStable lessWithoutScore parsed
     \<and> PreferredMediaTypes rt accept [] =
          Some (Inr (map getFullType (filter isQuality (SliceStable lessWithoutScore parsed))))
     \<and> ((\<forall>m \<in> set parsed. Q m \<noteq> NaN) \<longrightarrow>
          (\<exists>ms. PreferredMediaTypes rt accept [] = Some (Inr (map getFullType ms))
             \<and> mset ms = mset (filter isQuality parsed)
             \<and> sorted_wrt qualityThenPosition ms
             \<and> (\<forall>ms'. mset ms' = mset (filter isQuality parsed) \<and> sorted_wrt qualityThenPosition ms'
                    \<longrightarrow> ms' = ms)))"
proof -
  let ?ms = "filter isQuality (SliceStable lessAccepts parsed)"
  have asc: "sorted_wrt (<) (map I parsed)" and zero: "\<forall>m \<in> set parsed. S m = 0"
    using parse by (rule parseAccept_fields)+
  have "\<forall>x \<in> set parsed. \<forall>y \<in> set parsed. lessAccepts x y = lessWithoutScore x y"
    using zero by (simp add: lessAccepts_def lessWithoutScore_def)
  then have same: "SliceStable lessAccepts parsed = SliceStable lessWithoutScore parsed"
    by (rule SliceStable_cong)
  have out: "PreferredMediaTypes rt accept [] = Some (Inr (map getFullType ?ms))"
    by (simp add: PreferredMediaTypes_parsed [OF parse] preferredOf_def)
  have perm: "mset ?ms = mset (filter isQuality parsed)"
    by (simp add: mset_SliceStable)
  have ordered: "\<exists>ms. PreferredMediaTypes rt accept [] = Some (Inr (map getFullType ms))
             \<and> mset ms = mset (filter isQuality parsed)
             \<and> sorted_wrt qualityThenPosition ms
             \<and> (\<forall>ms'. mset ms' = mset (filter isQuality parsed) \<and> sorted_wrt qualityThenPosition ms'
                    \<longrightarrow> ms' = ms)"
    if nan: "\<forall>m \<in> set parsed. Q m \<noteq> NaN"
  proof -
    have "sorted_wrt prefers ?ms"
      using sorted_accepts [OF asc nan] by (rule sorted_wrt_filter)
    then have sorted: "sorted_wrt qualityThenPosition ?ms"
    proof (rule sorted_wrt_mono_rel [rotated])
      fix a b assume "a \<in> set ?ms" "b \<in> set ?ms" "prefers a b"
      then show "qualityThenPosition a b"
        using zero by (simp add: set_SliceStable qualityThenPosition_prefers)
    qed
    have unique: "ms' = ?ms"
      if "mset ms' = mset (filter isQuality parsed)" "sorted_wrt qualityThenPosition ms'" for ms'
    proof (rule sorted_wrt_unique [where R = qualityThenPosition])
      show "sorted_wrt qualityThenPosition ms'" by (rule that(2))
      show "sorted_wrt qualityThenPosition ?ms" by (rule sorted)
      show "mset ms' = mset ?ms" using that(1) perm by simp
      show "\<forall>a\<in>set ms'. \<forall>b\<in>set ms'. qualityThenPosition a b \<longrightarrow> \<not> qualityThenPosition b a"
        by (auto simp: qualityThenPosition_def f64_gt_irrefl dest: f64_gt_asym)
    qed
    from out perm sorted unique show ?thesis by blast
  qed
  from zero same out ordered show ?thesis by (simp only: same) blast
qed

theorem no_candidates_ignores_specificity_witness:
  "parseAccept exampleRuntime ''text/plain;q=0.5, text/*, */*;q=0.5'' =
     Some (Inr [\<lparr>Type = ''text'', Subtype = ''plain'', Params = [], Q = Fin (1 / 2), I = 0, S = 0\<rparr>,
                \<lparr>Type = ''text'', Subtype = ''*'', Params = [], Q = Fin 1, I = 1, S = 0\<rparr>,
                \<lparr>Type = ''*'', Subtype = ''*'', Params = [], Q = Fin (1 / 2), I = 2, S = 0\<rparr>])
   \<and> PreferredMediaTypes exampleRuntime ''text/plain;q=0.5, text/*, */*;q=0.5'' [] =
     Some (Inr [''text/*'', ''text/plain'', ''*/*''])"
proof -
  let ?parsed = "[\<lparr>Type = ''text'', Subtype = ''plain'', Params = [], Q = Fin (1 / 2), I = 0, S = 0\<rparr>,
                \<lparr>Type = ''text'', Subtype = ''*'', Params = [], Q = Fin 1, I = 1, S = 0\<rparr>,
                \<lparr>Type = ''*'', Subtype = ''*'', Params = [], Q = Fin (1 / 2), I = 2, S = 0\<rparr>]"
  let ?ms = "[\<lparr>Type = ''text'', Subtype = ''*'', Params = [], Q = Fin 1, I = 1, S = 0\<rparr>,
              \<lparr>Type = ''text'', Subtype = ''plain'', Params = [], Q = Fin (1 / 2), I = 0, S = 0\<rparr>,
              \<lparr>Type = ''*'', Subtype = ''*'', Params = [], Q = Fin (1 / 2), I = 2, S = 0\<rparr>]"
  have p: "parseAccept exampleRuntime (if ''text/plain;q=0.5, text/*, */*;q=0.5'' = [] then ''*/*'' else ''text/plain;q=0.5, text/*, */*;q=0.5'') = Some (Inr ?parsed)"
    by code_simp
  have n: "\<forall>m \<in> set ?parsed. Q m \<noteq> NaN" by simp
  have m: "mset ?ms = mset (filter isQuality ?parsed)" by code_simp
  have s: "sorted_wrt qualityThenPosition ?ms" by code_simp
  from no_candidates_ignores_specificity [OF p] n obtain ms where
    out: "PreferredMediaTypes exampleRuntime ''text/plain;q=0.5, text/*, */*;q=0.5'' [] = Some (Inr (map getFullType ms))"
    and u: "\<forall>ms'. mset ms' = mset (filter isQuality ?parsed) \<and> sorted_wrt qualityThenPosition ms' \<longrightarrow> ms' = ms"
    by blast
  from u m s have "?ms = ms" by blast
  with out have "PreferredMediaTypes exampleRuntime ''text/plain;q=0.5, text/*, */*;q=0.5'' [] = Some (Inr (map getFullType ?ms))"
    by simp
  moreover have "map getFullType ?ms = [''text/*'', ''text/plain'', ''*/*'']" by code_simp
  ultimately show ?thesis using p by simp
qed

text \<open>
  Claim C10 as stated, for every header, fails in the same way as claim C4: a spec with
  q=NaN keeps the specs on its two sides apart, here one with q=0.1 before one with q=1.
\<close>

theorem no_candidates_quality_order_fails_with_NaN:
  "parseAccept exampleRuntime ''x/y;q=0.1, z/w;q=NaN, u/v'' =
     Some (Inr [\<lparr>Type = ''x'', Subtype = ''y'', Params = [], Q = Fin (1 / 10), I = 0, S = 0\<rparr>,
                \<lparr>Type = ''z'', Subtype = ''w'', Params = [], Q = NaN, I = 1, S = 0\<rparr>,
                \<lparr>Type = ''u'', Subtype = ''v'', Params = [], Q = Fin 1, I = 2, S = 0\<rparr>])
   \<and> PreferredMediaTypes exampleRuntime ''x/y;q=0.1, z/w;q=NaN, u/v'' [] = Some (Inr [''x/y'', ''u/v''])
   \<and> \<not> sorted_wrt qualityThenPosition
        [\<lparr>Type = ''x'', Subtype = ''y'', Params = [], Q = Fin (1 / 10), I = 0, S = 0\<rparr>,
         \<lparr>Type = ''u'', Subtype = ''v'', Params = [], Q = Fin 1, I = 2, S = 0\<rparr>]"
  by code_simp

end
